theory Spec2Isabelle
  imports Complex_Main "HOL-Library.Sublist"
begin

section \<open>The message cleaner of \<^verbatim>\<open>bot/exts/moderation/clean.py\<close>\<close>

text \<open>
  The cog \<^verbatim>\<open>Clean\<close> deletes messages that match a predicate. Its state is one
  boolean, \<^verbatim>\<open>self.cleaning\<close>; everything else it does is a call on the chat
  platform. The model below keeps both: a world that holds the flag and the trace of
  the calls made so far, and an environment that answers each call.
\<close>

subsection \<open>Messages, channels, users\<close>

text \<open>
  A channel is a text channel or some other guild channel (voice, category); only the
  wildcard expansion of \<^verbatim>\<open>_clean_messages\<close> tells them apart. Identifiers are
  Python integers. A \<^verbatim>\<open>datetime\<close> is a number of seconds. An embed attribute
  that is absent (\<^verbatim>\<open>Embed.Empty\<close>) and one that is the empty string are both
  falsy and are dropped alike by \<^verbatim>\<open>predicate_regex\<close>, so both are the empty
  string here.
\<close>

datatype channel = TextChannel nat | OtherChannel nat

record user =
  user_id :: nat
  bot :: bool

record embed_field =
  field_name :: string
  field_value :: string

record embed =
  title :: string
  description :: string
  footer_text :: string
  author_name :: string
  embed_fields :: "embed_field list"

type_synonym datetime = real

record message =
  msg_id :: int
  msg_channel :: channel
  author :: user
  created_at :: datetime
  content :: string
  embeds :: "embed list"

subsection \<open>The world: the flag, the calls, the clock\<close>

text \<open>
  Every \<^verbatim>\<open>await\<close> of the source is an event of the trace. The environment
  answers the event at position \<open>p\<close> of the trace with \<open>replies env p\<close>: how the
  call ended, and whether \<^verbatim>\<open>self.cleaning\<close> was cleared by another handler
  (\<^verbatim>\<open>clean_cancel\<close>, \<^verbatim>\<open>cog_command_error\<close>) while the coroutine was
  suspended. Handlers run one at a time and switch at an \<^verbatim>\<open>await\<close> only, so the
  flag changes nowhere else; that another cleanup is started while this one is
  suspended is left out. \<^verbatim>\<open>time.time()\<close> is read from \<open>clock env\<close>, one entry
  per read. The read of the bot's message cache is recorded too (\<open>CacheRead\<close>),
  though nothing is awaited there: the entry of \<open>replies\<close> at its position is not
  used. Of the events, \<open>Send\<close> is \<^verbatim>\<open>ctx.send\<close> with its \<^verbatim>\<open>delete_after\<close>,
  \<open>HistoryNext\<close> one step of \<^verbatim>\<open>async for message in channel.history(limit, before, after)\<close>,
  \<open>UploadLog\<close> and \<open>SendLogMessage\<close> the two calls on the mod-log cog.
\<close>

datatype outcome = Done | NotFound | HTTPError

record reply =
  outcome :: outcome
  stop :: bool

datatype event =
    Send channel string "nat option"
  | SendHelp
  | DeleteMessage message
  | BulkDelete channel "message list"
  | HistoryNext channel int "datetime option" "datetime option"
  | CacheRead
  | UploadLog "message list" nat
  | SendLogMessage nat "channel list option"
  | AddReaction message

record world =
  cleaning :: bool
  trace :: "event list"
  ticks :: nat

record env =
  replies :: "nat \<Rightarrow> reply"
  clock :: "nat \<Rightarrow> real"
  history :: "channel \<Rightarrow> int \<Rightarrow> datetime option \<Rightarrow> datetime option \<Rightarrow> message list"
  cached_messages :: "message list"
  is_mod_channel :: "channel \<Rightarrow> bool"
  message_limit :: int

datatype error = BadArgument string | ValueError string | NotFoundError | HTTPException

definition await :: "env \<Rightarrow> event \<Rightarrow> world \<Rightarrow> outcome \<times> world" where
  "await env e w =
     (let r = replies env (length (trace w))
      in (outcome r, w\<lparr>cleaning := cleaning w \<and> \<not> stop r, trace := trace w @ [e]\<rparr>))"

definition time_time :: "env \<Rightarrow> world \<Rightarrow> real \<times> world" where
  "time_time env w = (clock env (ticks w), w\<lparr>ticks := Suc (ticks w)\<rparr>)"

subsection \<open>\<^verbatim>\<open>is_older_than_14d\<close>\<close>

text \<open>
  \<^verbatim>\<open>int((time.time() - 14 * 24 * 60 * 60) * 1000.0 - 1420070400000) << 22\<close>.
  The clock value is the real number the double denotes and the arithmetic on it is
  exact; \<^verbatim>\<open>int\<close> of a float truncates towards zero; \<^verbatim>\<open><<\<close> on a Python
  integer is \<open>push_bit\<close>, also for a negative one.
\<close>

definition py_int :: "real \<Rightarrow> int" where
  "py_int x = (if 0 \<le> x then \<lfloor>x\<rfloor> else \<lceil>x\<rceil>)"

definition is_older_than_14d :: "real \<Rightarrow> message \<Rightarrow> bool" where
  "is_older_than_14d now message =
     (let two_weeks_old_snowflake =
            push_bit 22 (py_int ((now - 14 * 24 * 60 * 60) * 1000 - 1420070400000))
      in msg_id message < two_weeks_old_snowflake)"


subsection \<open>\<^verbatim>\<open>_delete_messages_individually\<close>\<close>

text \<open>
  \<^verbatim>\<open>with contextlib.suppress(NotFound): await message.delete(); deleted.append(message)\<close>:
  the append is inside the \<^verbatim>\<open>with\<close> block, so a message that is gone is not
  appended. Any other exception leaves the function.
\<close>

fun individually_loop ::
  "env \<Rightarrow> message list \<Rightarrow> message list \<Rightarrow> world \<Rightarrow> (error + message list) \<times> world" where
  "individually_loop env [] deleted w = (Inr deleted, w)"
| "individually_loop env (message # messages) deleted w =
     (if \<not> cleaning w then (Inr deleted, w)
      else case await env (DeleteMessage message) w of
             (Done, w') \<Rightarrow> individually_loop env messages (deleted @ [message]) w'
           | (NotFound, w') \<Rightarrow> individually_loop env messages deleted w'
           | (HTTPError, w') \<Rightarrow> (Inl HTTPException, w'))"

definition delete_messages_individually ::
  "env \<Rightarrow> message list \<Rightarrow> world \<Rightarrow> (error + message list) \<times> world" where
  "delete_messages_individually env messages w = individually_loop env messages [] w"

subsection \<open>\<^verbatim>\<open>_delete_found\<close>\<close>

text \<open>
  The inner \<^verbatim>\<open>for current_index, message in enumerate(messages)\<close> ends in one of
  three ways: \<^verbatim>\<open>return deleted\<close>; \<^verbatim>\<open>break\<close> with \<^verbatim>\<open>delete_old = True\<close>
  at \<^verbatim>\<open>current_index\<close>; or the list is exhausted with \<^verbatim>\<open>delete_old = False\<close>.
  \<^verbatim>\<open>with suppress(NotFound): await channel.delete_messages(to_delete)\<close> is followed,
  outside the \<^verbatim>\<open>with\<close> block, by \<^verbatim>\<open>deleted.extend(to_delete)\<close>.
\<close>

datatype scan_exit =
    Returned "message list"
  | Broke nat "message list" "message list"
  | Exhausted "message list" "message list"

fun scan_loop ::
  "env \<Rightarrow> channel \<Rightarrow> nat \<Rightarrow> message list \<Rightarrow> message list \<Rightarrow> message list \<Rightarrow> world
     \<Rightarrow> (error + scan_exit) \<times> world" where
  "scan_loop env channel current_index [] to_delete deleted w =
     (Inr (Exhausted to_delete deleted), w)"
| "scan_loop env channel current_index (message # messages) to_delete deleted w =
     (if \<not> cleaning w then (Inr (Returned deleted), w)
      else case time_time env w of
        (now, w1) \<Rightarrow>
          if is_older_than_14d now message
          then (Inr (Broke current_index to_delete deleted), w1)
          else let to_delete = to_delete @ [message] in
            if length to_delete = 100
            then (case await env (BulkDelete channel to_delete) w1 of
                    (HTTPError, w2) \<Rightarrow> (Inl HTTPException, w2)
                  | (_, w2) \<Rightarrow>
                      scan_loop env channel (Suc current_index) messages []
                        (deleted @ to_delete) w2)
            else scan_loop env channel (Suc current_index) messages to_delete deleted w1)"

text \<open>
  The rest of the outer loop's body, after the inner loop: the leftover batch, then the
  old messages one by one. \<open>Return\<close> is \<^verbatim>\<open>return deleted\<close>, \<open>Continue\<close> is the
  end of the body.
\<close>

datatype 'a flow = Return 'a | Continue 'a

definition after_scan ::
  "env \<Rightarrow> channel \<Rightarrow> message list \<Rightarrow> bool \<Rightarrow> nat \<Rightarrow> message list \<Rightarrow> message list \<Rightarrow> world
     \<Rightarrow> (error + message list flow) \<times> world" where
  "after_scan env channel messages delete_old current_index to_delete deleted w =
     (if \<not> cleaning w then (Inr (Return deleted), w)
      else case (if length to_delete > 0
                 then (case await env (BulkDelete channel to_delete) w of
                         (HTTPError, w1) \<Rightarrow> (Inl HTTPException, w1)
                       | (_, w1) \<Rightarrow> (Inr (deleted @ to_delete), w1))
                 else (Inr deleted, w)) of
             (Inl e, w1) \<Rightarrow> (Inl e, w1)
           | (Inr deleted, w1) \<Rightarrow>
               if \<not> cleaning w1 then (Inr (Return deleted), w1)
               else if delete_old
               then (case delete_messages_individually env (drop current_index messages) w1 of
                       (Inl e, w2) \<Rightarrow> (Inl e, w2)
                     | (Inr old_deleted, w2) \<Rightarrow> (Inr (Continue (deleted @ old_deleted)), w2))
               else (Inr (Continue deleted), w1))"

definition delete_in_channel ::
  "env \<Rightarrow> channel \<Rightarrow> message list \<Rightarrow> message list \<Rightarrow> world
     \<Rightarrow> (error + message list flow) \<times> world" where
  "delete_in_channel env channel messages deleted w =
     (case scan_loop env channel 0 messages [] deleted w of
        (Inl e, w1) \<Rightarrow> (Inl e, w1)
      | (Inr (Returned deleted), w1) \<Rightarrow> (Inr (Return deleted), w1)
      | (Inr (Broke current_index to_delete deleted), w1) \<Rightarrow>
          after_scan env channel messages True current_index to_delete deleted w1
      | (Inr (Exhausted to_delete deleted), w1) \<Rightarrow>
          after_scan env channel messages False 0 to_delete deleted w1)"

text \<open>
  \<^verbatim>\<open>for channel, messages in message_mappings.items()\<close>: the dictionary keeps its
  insertion order, so it is the list of its items.
\<close>

fun found_loop ::
  "env \<Rightarrow> (channel \<times> message list) list \<Rightarrow> message list \<Rightarrow> world
     \<Rightarrow> (error + message list) \<times> world" where
  "found_loop env [] deleted w = (Inr deleted, w)"
| "found_loop env ((channel, messages) # items) deleted w =
     (case delete_in_channel env channel messages deleted w of
        (Inl e, w') \<Rightarrow> (Inl e, w')
      | (Inr (Return deleted), w') \<Rightarrow> (Inr deleted, w')
      | (Inr (Continue deleted), w') \<Rightarrow> found_loop env items deleted w')"

definition delete_found ::
  "env \<Rightarrow> (channel \<times> message list) list \<Rightarrow> world \<Rightarrow> (error + message list) \<times> world" where
  "delete_found env message_mappings w = found_loop env message_mappings [] w"

subsection \<open>Compiled patterns\<close>

text \<open>
  \<^verbatim>\<open>re\<close> is the standard library's. A compiled pattern is modelled by its syntax tree,
  for the regular constructs, and \<^verbatim>\<open>regex.search\<close> by a matcher on derivatives.
  \<^verbatim>\<open>Regex.convert\<close> compiles with \<^verbatim>\<open>re.IGNORECASE + re.DOTALL\<close>, so a letter
  matches in either case and the dot matches every character, the newline too.
  Characters are bytes here, and case is ASCII case.
\<close>

datatype regex =
    RNone
  | REps
  | RChar char
  | RAny
  | RRange char char
  | RSeq regex regex
  | RAlt regex regex
  | RStar regex
  | RPlus regex
  | ROpt regex

definition lower :: "char \<Rightarrow> char" where
  "lower c = (if of_char c \<ge> (65::nat) \<and> of_char c \<le> (90::nat)
              then char_of (of_char c + (32::nat)) else c)"

definition upper :: "char \<Rightarrow> char" where
  "upper c = (if of_char c \<ge> (97::nat) \<and> of_char c \<le> (122::nat)
              then char_of (of_char c - (32::nat)) else c)"

definition in_range :: "char \<Rightarrow> char \<Rightarrow> char \<Rightarrow> bool" where
  "in_range a b c \<longleftrightarrow> (of_char a :: nat) \<le> of_char c \<and> (of_char c :: nat) \<le> of_char b"

fun nullable :: "regex \<Rightarrow> bool" where
  "nullable RNone = False"
| "nullable REps = True"
| "nullable (RChar c) = False"
| "nullable RAny = False"
| "nullable (RRange a b) = False"
| "nullable (RSeq r s) = (nullable r \<and> nullable s)"
| "nullable (RAlt r s) = (nullable r \<or> nullable s)"
| "nullable (RStar r) = True"
| "nullable (RPlus r) = nullable r"
| "nullable (ROpt r) = True"

text \<open>
  \<open>RNone\<close> matches nothing (as \<^verbatim>\<open>(?!)\<close> does) and \<open>REps\<close> the empty string only.
  \<open>deriv c r\<close> matches what \<open>r\<close> matches after a first character \<open>c\<close>.
\<close>

definition char_matches :: "regex \<Rightarrow> char \<Rightarrow> bool" where
  "char_matches r c =
     (case r of
        RChar d \<Rightarrow> lower c = lower d
      | RAny \<Rightarrow> True
      | RRange a b \<Rightarrow> in_range a b c \<or> in_range a b (lower c) \<or> in_range a b (upper c)
      | _ \<Rightarrow> False)"

fun deriv :: "char \<Rightarrow> regex \<Rightarrow> regex" where
  "deriv c RNone = RNone"
| "deriv c REps = RNone"
| "deriv c (RChar d) = (if char_matches (RChar d) c then REps else RNone)"
| "deriv c RAny = REps"
| "deriv c (RRange a b) = (if char_matches (RRange a b) c then REps else RNone)"
| "deriv c (RSeq r s) =
     (if nullable r then RAlt (RSeq (deriv c r) s) (deriv c s) else RSeq (deriv c r) s)"
| "deriv c (RAlt r s) = RAlt (deriv c r) (deriv c s)"
| "deriv c (RStar r) = RSeq (deriv c r) (RStar r)"
| "deriv c (RPlus r) = RSeq (deriv c r) (RStar r)"
| "deriv c (ROpt r) = deriv c r"

text \<open>
  \<open>match_prefix r s\<close>: some prefix of \<open>s\<close> matches \<open>r\<close>. \<open>re_search r s\<close>: a match
  starts at some position of \<open>s\<close>, as \<^verbatim>\<open>Pattern.search\<close> scans for one.
\<close>

fun match_prefix :: "regex \<Rightarrow> string \<Rightarrow> bool" where
  "match_prefix r [] = nullable r"
| "match_prefix r (c # cs) = (nullable r \<or> match_prefix (deriv c r) cs)"

fun re_search :: "regex \<Rightarrow> string \<Rightarrow> bool" where
  "re_search r [] = nullable r"
| "re_search r (c # cs) = (match_prefix r (c # cs) \<or> re_search r cs)"

text \<open>
  \<^verbatim>\<open>Regex.convert\<close>: the argument must be a pattern between two backticks,
  \<^verbatim>\<open>re.fullmatch(r"`(.+?)`", argument)\<close>, where the dot (no \<^verbatim>\<open>DOTALL\<close> here) does
  not match a newline; \<^verbatim>\<open>re.compile\<close> is a parameter, \<open>None\<close> where it raises
  \<^verbatim>\<open>re.error\<close>.
\<close>

definition Regex_convert :: "(string \<Rightarrow> regex option) \<Rightarrow> string \<Rightarrow> error + regex" where
  "Regex_convert compile argument =
     (if length argument \<ge> 3 \<and> hd argument = CHR 0x60 \<and> last argument = CHR 0x60 \<and>
         CHR 0x0A \<notin> set (butlast (tl argument))
      then (case compile (butlast (tl argument)) of
              None \<Rightarrow> Inl (BadArgument ''Regex error'')
            | Some pattern \<Rightarrow> Inr pattern)
      else Inl (BadArgument ''Regex pattern missing wrapping backticks''))"

subsection \<open>\<^verbatim>\<open>_build_predicate\<close>\<close>

definition predicate_bots_only :: "message \<Rightarrow> bool" where
  "predicate_bots_only message = bot (author message)"

definition predicate_specific_users :: "user list \<Rightarrow> message \<Rightarrow> bool" where
  "predicate_specific_users users message \<longleftrightarrow> author message \<in> set users"

text \<open>\<^verbatim>\<open>"\n".join(...)\<close>.\<close>

fun join :: "string \<Rightarrow> string list \<Rightarrow> string" where
  "join sep [] = []"
| "join sep [x] = x"
| "join sep (x # y # ys) = x @ sep @ join sep (y # ys)"

text \<open>
  The two loops of \<^verbatim>\<open>predicate_regex\<close> append to the list \<^verbatim>\<open>content\<close>
  (\<open>contents\<close> here, \<open>joined\<close> once it is a string); the
  generator \<^verbatim>\<open>attr for attr in content if attr\<close> drops what is empty.
\<close>

definition append_field :: "string list \<Rightarrow> embed_field \<Rightarrow> string list" where
  "append_field contents field = (contents @ [field_name field]) @ [field_value field]"

definition append_embed :: "string list \<Rightarrow> embed \<Rightarrow> string list" where
  "append_embed contents emb =
     foldl append_field
       ((((contents @ [title emb]) @ [description emb]) @ [footer_text emb]) @ [author_name emb])
       (embed_fields emb)"

definition predicate_regex :: "regex \<Rightarrow> message \<Rightarrow> bool" where
  "predicate_regex regex message =
     (let contents = foldl append_embed [content message] (embeds message);
          joined = join [CHR 0x0A] (filter (\<lambda>attr. attr \<noteq> []) contents)
      in re_search regex joined)"

text \<open>
  \<^verbatim>\<open>first_limit <= message.created_at <= second_limit\<close>. With \<^verbatim>\<open>first_limit\<close>
  \<^verbatim>\<open>None\<close> the comparison would raise \<^verbatim>\<open>TypeError\<close>; \<^verbatim>\<open>_validate_input\<close> has
  refused a second limit without a first before any predicate is built, and the model's
  value there is not used.
\<close>

definition predicate_range :: "datetime option \<Rightarrow> datetime \<Rightarrow> message \<Rightarrow> bool" where
  "predicate_range first_limit second_limit message =
     (case first_limit of
        Some f \<Rightarrow> f \<le> created_at message \<and> created_at message \<le> second_limit
      | None \<Rightarrow> False)"

definition predicate_after :: "datetime \<Rightarrow> message \<Rightarrow> bool" where
  "predicate_after first_limit message \<longleftrightarrow> created_at message \<ge> first_limit"

definition truthy :: "'a list option \<Rightarrow> bool" where
  "truthy xs = (case xs of None \<Rightarrow> False | Some ys \<Rightarrow> ys \<noteq> [])"

definition build_predicate ::
  "bool \<Rightarrow> user list option \<Rightarrow> regex option \<Rightarrow> datetime option \<Rightarrow> datetime option
     \<Rightarrow> message \<Rightarrow> bool" where
  "build_predicate bots_only users regex first_limit second_limit =
     (let predicates =
            (if bots_only then [predicate_bots_only] else []) @
            (if truthy users then [predicate_specific_users (the users)] else []) @
            (case regex of Some r \<Rightarrow> [predicate_regex r] | None \<Rightarrow> []) @
            (case second_limit of
               Some s \<Rightarrow> [predicate_range first_limit s]
             | None \<Rightarrow> (case first_limit of Some f \<Rightarrow> [predicate_after f] | None \<Rightarrow> []))
      in if predicates = [] then (\<lambda>m. True)
         else if length predicates = 1 then hd predicates
         else (\<lambda>m. list_all (\<lambda>pred. pred m) predicates))"

subsection \<open>\<^verbatim>\<open>_get_messages_from_cache\<close> and \<^verbatim>\<open>_get_messages_from_channels\<close>\<close>

text \<open>
  \<^verbatim>\<open>message_mappings[message.channel].append(message)\<close> on a \<^verbatim>\<open>defaultdict(list)\<close>:
  a new channel goes to the end of the dictionary.
\<close>

type_synonym message_mappings = "(channel \<times> message list) list"

fun mappings_append :: "message_mappings \<Rightarrow> message \<Rightarrow> message_mappings" where
  "mappings_append [] m = [(msg_channel m, [m])]"
| "mappings_append ((c, ms) # rest) m =
     (if c = msg_channel m then (c, ms @ [m]) # rest else (c, ms) # mappings_append rest m)"

text \<open>
  The loop over \<^verbatim>\<open>islice(self.bot.cached_messages, traverse)\<close> awaits nothing, so the
  world is the same at every turn. \<^verbatim>\<open>islice\<close> raises \<^verbatim>\<open>ValueError\<close> for a
  negative stop.
\<close>

fun cache_loop ::
  "(message \<Rightarrow> bool) \<Rightarrow> message list \<Rightarrow> message_mappings \<Rightarrow> int list \<Rightarrow> world
     \<Rightarrow> message_mappings \<times> int list" where
  "cache_loop to_delete [] message_mappings message_ids w = (message_mappings, message_ids)"
| "cache_loop to_delete (message # rest) message_mappings message_ids w =
     (if \<not> cleaning w then (message_mappings, message_ids)
      else if to_delete message
      then cache_loop to_delete rest (mappings_append message_mappings message)
             (message_ids @ [msg_id message]) w
      else cache_loop to_delete rest message_mappings message_ids w)"

definition get_messages_from_cache ::
  "env \<Rightarrow> int \<Rightarrow> (message \<Rightarrow> bool) \<Rightarrow> world
     \<Rightarrow> (error + message_mappings \<times> int list) \<times> world" where
  "get_messages_from_cache env traverse to_delete w =
     (if traverse < 0 then (Inl (ValueError ''islice''), w)
      else let w1 = w\<lparr>trace := trace w @ [CacheRead]\<rparr>
           in (Inr (cache_loop to_delete (take (nat traverse) (cached_messages env)) [] [] w1), w1))"

text \<open>
  One channel's \<^verbatim>\<open>async for\<close>: every step awaits the iterator, the last one to learn
  that it is exhausted. A step that fails leaves the function with the exception.
\<close>

definition raised :: "outcome \<Rightarrow> error" where
  "raised r = (case r of NotFound \<Rightarrow> NotFoundError | _ \<Rightarrow> HTTPException)"

fun history_loop ::
  "env \<Rightarrow> (message \<Rightarrow> bool) \<Rightarrow> event \<Rightarrow> message list \<Rightarrow> message_mappings \<Rightarrow> int list \<Rightarrow> world
     \<Rightarrow> (error + (message_mappings \<times> int list) flow) \<times> world" where
  "history_loop env to_delete step [] message_mappings message_ids w =
     (case await env step w of
        (Done, w1) \<Rightarrow> (Inr (Continue (message_mappings, message_ids)), w1)
      | (r, w1) \<Rightarrow> (Inl (raised r), w1))"
| "history_loop env to_delete step (message # rest) message_mappings message_ids w =
     (case await env step w of
        (Done, w1) \<Rightarrow>
          if \<not> cleaning w1 then (Inr (Return ([], [])), w1)
          else if to_delete message
          then history_loop env to_delete step rest (mappings_append message_mappings message)
                 (message_ids @ [msg_id message]) w1
          else history_loop env to_delete step rest message_mappings message_ids w1
      | (r, w1) \<Rightarrow> (Inl (raised r), w1))"

fun channels_loop ::
  "env \<Rightarrow> int \<Rightarrow> (message \<Rightarrow> bool) \<Rightarrow> datetime option \<Rightarrow> datetime option \<Rightarrow> channel list
     \<Rightarrow> message_mappings \<Rightarrow> int list \<Rightarrow> world
     \<Rightarrow> (error + message_mappings \<times> int list) \<times> world" where
  "channels_loop env traverse to_delete before_time after_time [] message_mappings message_ids w =
     (Inr (message_mappings, message_ids), w)"
| "channels_loop env traverse to_delete before_time after_time (channel # channels) message_mappings message_ids w =
     (case history_loop env to_delete (HistoryNext channel traverse before_time after_time)
             (history env channel traverse before_time after_time) message_mappings message_ids w of
        (Inl e, w1) \<Rightarrow> (Inl e, w1)
      | (Inr (Return r), w1) \<Rightarrow> (Inr r, w1)
      | (Inr (Continue (message_mappings, message_ids)), w1) \<Rightarrow>
          channels_loop env traverse to_delete before_time after_time channels message_mappings message_ids w1)"

definition get_messages_from_channels ::
  "env \<Rightarrow> int \<Rightarrow> channel list \<Rightarrow> (message \<Rightarrow> bool) \<Rightarrow> datetime option \<Rightarrow> datetime option \<Rightarrow> world
     \<Rightarrow> (error + message_mappings \<times> int list) \<times> world" where
  "get_messages_from_channels env traverse channels to_delete before_time after_time w =
     channels_loop env traverse to_delete before_time after_time channels [] [] w"

subsection \<open>\<^verbatim>\<open>_validate_input\<close>\<close>

text \<open>
  A limit is a message, or the \<^verbatim>\<open>datetime\<close> that the converters \<^verbatim>\<open>Age\<close> and
  \<^verbatim>\<open>ISODateTime\<close> give. The channels are the literal \<^verbatim>\<open>"*"\<close> or a list.
  \<open>truthy\<close> and \<open>truthy_channels\<close> are Python's truth of an optional list and of the
  channels argument.
\<close>

datatype clean_limit = LimitMessage message | LimitTime datetime

datatype clean_channels = AllChannels | Channels "channel list"

fun truthy_channels :: "clean_channels option \<Rightarrow> bool" where
  "truthy_channels None = False"
| "truthy_channels (Some AllChannels) = True"
| "truthy_channels (Some (Channels cs)) = (cs \<noteq> [])"

fun is_message :: "clean_limit option \<Rightarrow> bool" where
  "is_message (Some (LimitMessage m)) = True"
| "is_message _ = False"

definition validate_input ::
  "int \<Rightarrow> int \<Rightarrow> clean_channels option \<Rightarrow> bool \<Rightarrow> user list option
     \<Rightarrow> clean_limit option \<Rightarrow> clean_limit option \<Rightarrow> error + unit" where
  "validate_input limit traverse channels bots_only users first_limit second_limit =
     (if traverse > limit
      then Inl (BadArgument ''Cannot traverse more than message_limit messages.'')
      else if (is_message first_limit \<or> is_message second_limit) \<and> truthy_channels channels
      then Inl (BadArgument ''Both a message limit and channels specified.'')
      else if (case (first_limit, second_limit) of
                 (Some (LimitMessage a), Some (LimitMessage b)) \<Rightarrow> msg_channel a \<noteq> msg_channel b
               | _ \<Rightarrow> False)
      then Inl (BadArgument ''Message limits are in different channels.'')
      else if truthy users \<and> bots_only
      then Inl (BadArgument ''Marked as bots only, but users were specified.'')
      else if second_limit \<noteq> None \<and> first_limit = None
      then Inl (ValueError ''Second limit specified without the first.'')
      else Inr ())"

subsection \<open>The helpers that talk to the invoker and to the mod log\<close>

record invocation_context =
  ctx_channel :: channel
  ctx_message :: message
  ctx_author :: user
  ctx_guild_channels :: "channel list"

definition MESSAGE_DELETE_DELAY :: nat where
  "MESSAGE_DELETE_DELAY = 5"

definition DEFAULT_TRAVERSE :: int where
  "DEFAULT_TRAVERSE = 10"

definition send_expiring_message :: "env \<Rightarrow> invocation_context \<Rightarrow> string \<Rightarrow> world \<Rightarrow> (error + unit) \<times> world" where
  "send_expiring_message env ctx text w =
     (let delete_after = (if is_mod_channel env (ctx_channel ctx) then None
                          else Some MESSAGE_DELETE_DELAY)
      in case await env (Send (ctx_channel ctx) text delete_after) w of
           (Done, w1) \<Rightarrow> (Inr (), w1)
         | (r, w1) \<Rightarrow> (Inl (raised r), w1))"

text \<open>\<^verbatim>\<open>_delete_invocation\<close> catches \<^verbatim>\<open>NotFound\<close> and nothing else.\<close>

definition delete_invocation :: "env \<Rightarrow> invocation_context \<Rightarrow> world \<Rightarrow> (error + unit) \<times> world" where
  "delete_invocation env ctx w =
     (if \<not> is_mod_channel env (ctx_channel ctx)
      then (case await env (DeleteMessage (ctx_message ctx)) w of
              (HTTPError, w1) \<Rightarrow> (Inl HTTPException, w1)
            | (_, w1) \<Rightarrow> (Inr (), w1))
      else (Inr (), w))"

definition modlog_cleaned_messages ::
  "env \<Rightarrow> message list \<Rightarrow> clean_channels \<Rightarrow> invocation_context \<Rightarrow> world \<Rightarrow> (error + bool) \<times> world" where
  "modlog_cleaned_messages env messages channels ctx w =
     (if messages = []
      then (case send_expiring_message env ctx '':x: No matching messages could be found.'' w of
              (Inl e, w1) \<Rightarrow> (Inl e, w1)
            | (Inr _, w1) \<Rightarrow> (Inr False, w1))
      else (case await env (UploadLog (rev messages) (user_id (ctx_author ctx))) w of
              (Done, w1) \<Rightarrow>
                (case await env (SendLogMessage (length messages)
                        (case channels of AllChannels \<Rightarrow> None | Channels cs \<Rightarrow> Some cs)) w1 of
                   (Done, w2) \<Rightarrow> (Inr True, w2)
                 | (r, w2) \<Rightarrow> (Inl (raised r), w2))
            | (r, w1) \<Rightarrow> (Inl (raised r), w1)))"

subsection \<open>\<^verbatim>\<open>_clean_messages\<close>\<close>

text \<open>
  The limits once they are standardised (lines 377 to 382): a message becomes its
  creation time, and two limits are sorted.
\<close>

fun limit_time :: "clean_limit \<Rightarrow> datetime" where
  "limit_time (LimitMessage m) = created_at m"
| "limit_time (LimitTime t) = t"

definition standardize_limits ::
  "clean_limit option \<Rightarrow> clean_limit option \<Rightarrow> datetime option \<times> datetime option" where
  "standardize_limits first_limit second_limit =
     (let first_limit = map_option limit_time first_limit;
          second_limit = map_option limit_time second_limit
      in case (first_limit, second_limit) of
           (Some a, Some b) \<Rightarrow> (Some (sort [a, b] ! 0), Some (sort [a, b] ! 1))
         | _ \<Rightarrow> (first_limit, second_limit))"

text \<open>The channels when none were given (lines 368 to 375).\<close>

definition default_channels ::
  "invocation_context \<Rightarrow> clean_channels option \<Rightarrow> clean_limit option \<Rightarrow> clean_limit option \<Rightarrow> clean_channels" where
  "default_channels ctx channels first_limit second_limit =
     (if \<not> truthy_channels channels
      then (case first_limit of
              Some (LimitMessage m) \<Rightarrow> Channels [msg_channel m]
            | _ \<Rightarrow> (case second_limit of
                      Some (LimitMessage m) \<Rightarrow> Channels [msg_channel m]
                    | _ \<Rightarrow> Channels [ctx_channel ctx]))
      else the channels)"

fun is_text_channel :: "channel \<Rightarrow> bool" where
  "is_text_channel (TextChannel i) = True"
| "is_text_channel (OtherChannel i) = False"

text \<open>The choice between the cache and the history (lines 390 to 402).\<close>

definition get_messages ::
  "env \<Rightarrow> invocation_context \<Rightarrow> int \<Rightarrow> clean_channels \<Rightarrow> bool option \<Rightarrow> (message \<Rightarrow> bool)
     \<Rightarrow> datetime option \<Rightarrow> datetime option \<Rightarrow> world
     \<Rightarrow> (error + message_mappings \<times> int list) \<times> world" where
  "get_messages env ctx traverse channels use_cache predicate first_limit second_limit w =
     (if channels = AllChannels \<and> use_cache = Some True
      then get_messages_from_cache env traverse predicate w
      else let deletion_channels =
                 (case channels of
                    AllChannels \<Rightarrow> filter is_text_channel (ctx_guild_channels ctx)
                  | Channels cs \<Rightarrow> cs)
           in get_messages_from_channels env traverse deletion_channels predicate
                second_limit first_limit w)"

text \<open>
  \<open>session\<close> is \<^verbatim>\<open>_clean_messages\<close> from the deletion of the invocation on (lines
  387 to 417), once the flag is set, the channels are known, the limits are
  standardised and the predicate is built; \<open>clean_messages\<close> is the whole function.
\<close>

definition session ::
  "env \<Rightarrow> invocation_context \<Rightarrow> int \<Rightarrow> clean_channels \<Rightarrow> (message \<Rightarrow> bool)
     \<Rightarrow> datetime option \<Rightarrow> datetime option \<Rightarrow> bool option \<Rightarrow> world \<Rightarrow> (error + unit) \<times> world" where
  "session env ctx traverse channels predicate first_limit second_limit use_cache w =
     (case delete_invocation env ctx w of
        (Inl e, w1) \<Rightarrow> (Inl e, w1)
      | (Inr _, w1) \<Rightarrow>
          (case get_messages env ctx traverse channels use_cache predicate
                  first_limit second_limit w1 of
             (Inl e, w2) \<Rightarrow> (Inl e, w2)
           | (Inr (message_mappings, message_ids), w2) \<Rightarrow>
               if \<not> cleaning w2 then (Inr (), w2)
               else (case delete_found env message_mappings w2 of
                       (Inl e, w3) \<Rightarrow> (Inl e, w3)
                     | (Inr deleted_messages, w3) \<Rightarrow>
                         let w4 = w3\<lparr>cleaning := False\<rparr>
                         in case modlog_cleaned_messages env deleted_messages channels ctx w4 of
                              (Inl e, w5) \<Rightarrow> (Inl e, w5)
                            | (Inr logged, w5) \<Rightarrow>
                                if logged \<and> is_mod_channel env (ctx_channel ctx)
                                then (case await env (AddReaction (ctx_message ctx)) w5 of
                                        (HTTPError, w6) \<Rightarrow> (Inl HTTPException, w6)
                                      | (_, w6) \<Rightarrow> (Inr (), w6))
                                else (Inr (), w5))))"

definition clean_messages ::
  "env \<Rightarrow> invocation_context \<Rightarrow> int \<Rightarrow> clean_channels option \<Rightarrow> bool \<Rightarrow> user list option \<Rightarrow> regex option
     \<Rightarrow> clean_limit option \<Rightarrow> clean_limit option \<Rightarrow> bool option \<Rightarrow> world
     \<Rightarrow> (error + unit) \<times> world" where
  "clean_messages env ctx traverse channels bots_only users regex first_limit second_limit use_cache w =
     (case validate_input (message_limit env) traverse channels bots_only users
             first_limit second_limit of
        Inl e \<Rightarrow> (Inl e, w)
      | Inr _ \<Rightarrow>
          if cleaning w
          then send_expiring_message env ctx
                 '':x: Please wait for the currently ongoing clean operation to complete.'' w
          else
            let w = w\<lparr>cleaning := True\<rparr>;
                channels = default_channels ctx channels first_limit second_limit;
                (first_limit, second_limit) = standardize_limits first_limit second_limit;
                predicate = build_predicate bots_only users regex first_limit second_limit
            in session env ctx traverse channels predicate first_limit second_limit use_cache w)"

subsection \<open>The commands and the error hook\<close>

text \<open>
  \<^verbatim>\<open>cog_command_error\<close> is what the command framework runs when a command of the cog
  raises; \<open>invoke\<close> is that rule. \<^verbatim>\<open>use_cache\<close> comes from the command line as an
  optional boolean; \<^verbatim>\<open>traverse\<close> counts as absent when it is zero.
\<close>

definition cog_command_error :: "world \<Rightarrow> world" where
  "cog_command_error w = w\<lparr>cleaning := False\<rparr>"

definition invoke :: "(error + unit) \<times> world \<Rightarrow> (error + unit) \<times> world" where
  "invoke run = (case run of (Inl e, w) \<Rightarrow> (Inl e, cog_command_error w) | (Inr x, w) \<Rightarrow> (Inr x, w))"

definition clean_group ::
  "env \<Rightarrow> invocation_context \<Rightarrow> user list option \<Rightarrow> int option \<Rightarrow> clean_limit option \<Rightarrow> clean_limit option
     \<Rightarrow> bool option \<Rightarrow> bool \<Rightarrow> regex option \<Rightarrow> clean_channels option \<Rightarrow> world
     \<Rightarrow> (error + unit) \<times> world" where
  "clean_group env ctx users traverse first_limit second_limit use_cache bots_only regex channels w =
     (if \<not> list_ex (\<lambda>given. given)
               [traverse \<noteq> None \<and> traverse \<noteq> Some 0, truthy users, first_limit \<noteq> None,
                second_limit \<noteq> None, regex \<noteq> None, truthy_channels channels]
      then (case await env SendHelp w of
              (Done, w1) \<Rightarrow> (Inr (), w1)
            | (r, w1) \<Rightarrow> (Inl (raised r), w1))
      else
        let traverse = (if traverse = None \<or> traverse = Some 0
                        then (if first_limit \<noteq> None then message_limit env else DEFAULT_TRAVERSE)
                        else the traverse);
            use_cache = (if use_cache = None then Some (channels = Some AllChannels) else use_cache)
        in clean_messages env ctx traverse channels bots_only users regex first_limit second_limit
             use_cache w)"

definition clean_cancel :: "env \<Rightarrow> invocation_context \<Rightarrow> world \<Rightarrow> (error + unit) \<times> world" where
  "clean_cancel env ctx w =
     (let (text, w) = (if \<not> cleaning w then (''There is no cleaning going on.'', w)
                       else (''Clean interrupted.'', w\<lparr>cleaning := False\<rparr>))
      in case send_expiring_message env ctx text w of
           (Inl e, w1) \<Rightarrow> (Inl e, w1)
         | (Inr _, w1) \<Rightarrow> delete_invocation env ctx w1)"

subsection \<open>Batches of at most \<open>n\<close>, for the statements about bulk deletion\<close>

function chunks :: "nat \<Rightarrow> 'a list \<Rightarrow> 'a list list" where
  "chunks n xs = (if n = 0 \<or> xs = [] then [] else take n xs # chunks n (drop n xs))"
  by pat_completeness auto
termination
  by (relation "measure (\<lambda>(n, xs). length xs)") auto


text \<open>
  \<open>full_batches\<close> are the batches of exactly \<open>n\<close>, \<open>leftover\<close> is what remains
  after them.
\<close>

function full_batches :: "nat \<Rightarrow> 'a list \<Rightarrow> 'a list list" where
  "full_batches n xs =
     (if n = 0 \<or> length xs < n then [] else take n xs # full_batches n (drop n xs))"
  by pat_completeness auto
termination
  by (relation "measure (\<lambda>(n, xs). length xs)") auto

function leftover :: "nat \<Rightarrow> 'a list \<Rightarrow> 'a list" where
  "leftover n xs = (if n = 0 \<or> length xs < n then xs else leftover n (drop n xs))"
  by pat_completeness auto
termination
  by (relation "measure (\<lambda>(n, xs). length xs)") auto


subsection \<open>Runs that nothing disturbs\<close>

text \<open>
  No reply clears the flag and no call fails with anything but \<^verbatim>\<open>NotFound\<close>.
  \<open>confirmed env p ms\<close> are the messages of \<open>ms\<close> whose deletions, issued one by
  one from position \<open>p\<close> of the trace on, were answered \<open>Done\<close>. \<open>cut_point\<close> is
  the index of the first message that \<^verbatim>\<open>is_older_than_14d\<close> reports, the clock
  being read once per message, or the length of the list when there is none.
\<close>

definition uninterrupted :: "env \<Rightarrow> bool" where
  "uninterrupted env \<longleftrightarrow> (\<forall>p. \<not> stop (replies env p) \<and> outcome (replies env p) \<noteq> HTTPError)"

fun confirmed :: "env \<Rightarrow> nat \<Rightarrow> message list \<Rightarrow> message list" where
  "confirmed env p [] = []"
| "confirmed env p (m # ms) =
     (if outcome (replies env p) = Done then [m] else []) @ confirmed env (Suc p) ms"


fun cut_point :: "env \<Rightarrow> nat \<Rightarrow> message list \<Rightarrow> nat" where
  "cut_point env t [] = 0"
| "cut_point env t (m # ms) =
     (if is_older_than_14d (clock env t) m then 0 else Suc (cut_point env (Suc t) ms))"


subsection \<open>What a run of the deleter did\<close>

text \<open>
  \<open>issued w w'\<close> are the calls made between two worlds. \<open>credited\<close> is the code's
  own account of them: every message handed to a bulk deletion, and every message whose
  individual deletion was answered \<open>Done\<close>. \<open>acknowledged\<close> are the messages of the
  calls answered \<open>Done\<close>. \<open>guarded env w w'\<close> says that the trace only grew, that the
  flag of \<open>w'\<close> is that of \<open>w\<close> unless a reply in between cleared it, and that every
  call but the last was answered without clearing the flag: no call is made once the
  flag is down.
\<close>

fun credited :: "env \<Rightarrow> nat \<Rightarrow> event list \<Rightarrow> message list" where
  "credited env p [] = []"
| "credited env p (e # es) =
     (case e of
        BulkDelete c ms \<Rightarrow> ms
      | DeleteMessage m \<Rightarrow> (if outcome (replies env p) = Done then [m] else [])
      | _ \<Rightarrow> []) @ credited env (Suc p) es"


definition guarded :: "env \<Rightarrow> world \<Rightarrow> world \<Rightarrow> bool" where
  "guarded env w w' \<longleftrightarrow>
     (\<exists>es. trace w' = trace w @ es \<and>
        cleaning w' = (cleaning w \<and> (\<forall>p. length (trace w) \<le> p \<and> p < length (trace w') \<longrightarrow>
                                         \<not> stop (replies env p))) \<and>
        (es \<noteq> [] \<longrightarrow> cleaning w \<and> (\<forall>p. length (trace w) \<le> p \<and> Suc p < length (trace w') \<longrightarrow>
                                         \<not> stop (replies env p))))"

definition accounted :: "env \<Rightarrow> world \<Rightarrow> world \<Rightarrow> message list \<Rightarrow> message list \<Rightarrow> bool" where
  "accounted env w w' d d' \<longleftrightarrow>
     guarded env w w' \<and>
     d' = d @ credited env (length (trace w)) (drop (length (trace w)) (trace w'))"

definition issued :: "world \<Rightarrow> world \<Rightarrow> event list" where
  "issued w w' = drop (length (trace w)) (trace w')"


subsection \<open>Example inputs\<close>

text \<open>
  A clock that stands at 1700000000 s, where the threshold of \<^verbatim>\<open>is_older_than_14d\<close>
  is \<open>push_bit 22 278720000000\<close>; messages with identifiers above it (\<open>recent\<close>) and
  far below it; an environment in which every call succeeds (\<open>calm\<close>), and one in which
  the second call finds its message gone (\<open>one_gone\<close>).
\<close>

definition example_message :: "int \<Rightarrow> message" where
  "example_message i = \<lparr>msg_id = i, msg_channel = TextChannel 1,
       author = \<lparr>user_id = 7, bot = True\<rparr>, created_at = 0, content = [], embeds = []\<rparr>"

definition recent :: "int \<Rightarrow> int" where
  "recent i = push_bit 22 300000000000 + i"

definition recent_messages :: "nat \<Rightarrow> message list" where
  "recent_messages n = map (\<lambda>i. example_message (recent (int i))) (rev [0..<n])"

definition calm :: env where
  "calm = \<lparr>replies = (\<lambda>p. \<lparr>outcome = Done, stop = False\<rparr>), clock = (\<lambda>t. 1700000000),
     history = (\<lambda>c n b a. []), cached_messages = [], is_mod_channel = (\<lambda>c. False),
     message_limit = 10000\<rparr>"

definition one_gone :: env where
  "one_gone = calm\<lparr>replies := (\<lambda>p. \<lparr>outcome = (if p = 1 then NotFound else Done), stop = False\<rparr>)\<rparr>"

definition started :: world where
  "started = \<lparr>cleaning = True, trace = [], ticks = 0\<rparr>"

definition five :: "message list" where
  "five = [example_message (recent 5), example_message (recent 4), example_message 3,
           example_message 2, example_message 1]"


definition stop_during :: "nat \<Rightarrow> env" where
  "stop_during n = calm\<lparr>replies := (\<lambda>p. \<lparr>outcome = Done, stop = (p = n)\<rparr>)\<rparr>"

definition alice :: user where
  "alice = \<lparr>user_id = 1, bot = False\<rparr>"

definition moderator :: user where
  "moderator = \<lparr>user_id = 2, bot = False\<rparr>"

definition command_message :: message where
  "command_message = \<lparr>msg_id = recent 100, msg_channel = TextChannel 1, author = moderator,
     created_at = 1700000000, content = ''!clean'', embeds = []\<rparr>"

definition here :: invocation_context where
  "here = \<lparr>ctx_channel = TextChannel 1, ctx_message = command_message, ctx_author = moderator,
     ctx_guild_channels = [TextChannel 1, OtherChannel 2, TextChannel 3]\<rparr>"

definition idle :: world where
  "idle = \<lparr>cleaning = False, trace = [], ticks = 0\<rparr>"

definition failing_at :: "nat \<Rightarrow> env" where
  "failing_at n = calm\<lparr>replies := (\<lambda>p. \<lparr>outcome = (if p = n then HTTPError else Done), stop = False\<rparr>)\<rparr>"

definition emits :: "(event \<Rightarrow> bool) \<Rightarrow> world \<Rightarrow> world \<Rightarrow> bool" where
  "emits P w w' \<longleftrightarrow> (\<exists>es. trace w' = trace w @ es \<and> list_all P es)"

fun is_enumeration :: "event \<Rightarrow> bool" where
  "is_enumeration CacheRead = True"
| "is_enumeration (HistoryNext c n b a) = True"
| "is_enumeration _ = False"

fun is_history :: "event \<Rightarrow> bool" where
  "is_history (HistoryNext c n b a) = True"
| "is_history _ = False"

fun fetches ::
  "env \<Rightarrow> int \<Rightarrow> datetime option \<Rightarrow> datetime option \<Rightarrow> channel list \<Rightarrow> message option list" where
  "fetches env traverse before_time after_time [] = []"
| "fetches env traverse before_time after_time (c # cs) =
     map Some (history env c traverse before_time after_time) @ [None] @
     fetches env traverse before_time after_time cs"

definition down :: "env \<Rightarrow> world \<Rightarrow> nat \<Rightarrow> bool" where
  "down env w k \<longleftrightarrow>
     \<not> cleaning w \<or> (\<exists>j\<le>k. stop (replies env (length (trace w) + j)))"

definition conc :: "string set \<Rightarrow> string set \<Rightarrow> string set" where
  "conc A B = {u @ v | u v. u \<in> A \<and> v \<in> B}"

inductive_set repetitions :: "string set \<Rightarrow> string set" for A :: "string set" where
  none: "[] \<in> repetitions A"
| more: "u \<in> A \<Longrightarrow> v \<in> repetitions A \<Longrightarrow> u @ v \<in> repetitions A"

fun lang :: "regex \<Rightarrow> string set" where
  "lang RNone = {}"
| "lang REps = {[]}"
| "lang (RChar d) = {[c] | c. lower c = lower d}"
| "lang RAny = {[c] | c. True}"
| "lang (RRange a b) = {[c] | c. in_range a b c \<or> in_range a b (lower c) \<or> in_range a b (upper c)}"
| "lang (RSeq r s) = conc (lang r) (lang s)"
| "lang (RAlt r s) = lang r \<union> lang s"
| "lang (RStar r) = repetitions (lang r)"
| "lang (RPlus r) = conc (lang r) (repetitions (lang r))"
| "lang (ROpt r) = insert [] (lang r)"

definition embed_texts :: "embed \<Rightarrow> string list" where
  "embed_texts e =
     [title e, description e, footer_text e, author_name e] @
     concat (map (\<lambda>f. [field_name f, field_value f]) (embed_fields e))"

definition searchable_text :: "message \<Rightarrow> string" where
  "searchable_text m =
     join [CHR 0x0A] (filter (\<lambda>t. t \<noteq> []) (content m # concat (map embed_texts (embeds m))))"

definition digits :: regex where
  "digits = RPlus (RRange CHR ''0'' CHR ''9'')"

definition only_field :: "string \<Rightarrow> embed" where
  "only_field v = \<lparr>title = [], description = [], footer_text = [], author_name = [],
     embed_fields = [\<lparr>field_name = [], field_value = v\<rparr>]\<rparr>"

definition two_in_history :: env where
  "two_in_history = (stop_during 1)\<lparr>history := (\<lambda>c n b a.
     if c = TextChannel 1 then [example_message (recent 2), example_message (recent 1)] else [])\<rparr>"

section \<open>Properties\<close>

declare full_batches.simps [simp del] leftover.simps [simp del] chunks.simps [simp del]






subsection \<open>Batches\<close>

lemma chunks_Nil [simp]: "chunks n [] = []"
  by (simp add: chunks.simps)

lemma chunks_step: "0 < n \<Longrightarrow> xs \<noteq> [] \<Longrightarrow> chunks n xs = take n xs # chunks n (drop n xs)"
  by (subst chunks.simps) simp

lemma full_batches_short: "length xs < n \<Longrightarrow> full_batches n xs = []"
  by (simp add: full_batches.simps)

lemma leftover_short: "length xs < n \<Longrightarrow> leftover n xs = xs"
  by (simp add: leftover.simps)

lemma full_batches_append: "0 < n \<Longrightarrow> length b = n \<Longrightarrow> full_batches n (b @ xs) = b # full_batches n xs"
  by (subst full_batches.simps) simp

lemma leftover_append: "0 < n \<Longrightarrow> length b = n \<Longrightarrow> leftover n (b @ xs) = leftover n xs"
  by (subst leftover.simps) simp

lemma chunks_batches:
  "0 < n \<Longrightarrow> chunks n xs = full_batches n xs @ (if leftover n xs = [] then [] else [leftover n xs])"
proof (induction n xs rule: chunks.induct)
  case (1 n xs)
  show ?case
  proof (cases "length xs < n")
    case True
    then show ?thesis using 1(2)
      by (cases "xs = []") (simp_all add: chunks_step full_batches_short leftover_short)
  next
    case False
    then have ne: "xs \<noteq> []" using 1(2) by auto
    have "chunks n xs = take n xs # chunks n (drop n xs)"
      using ne 1(2) by (simp add: chunks.simps[of n xs])
    moreover have "full_batches n xs = take n xs # full_batches n (drop n xs)"
      using False 1(2) by (simp add: full_batches.simps[of n xs])
    moreover have "leftover n xs = leftover n (drop n xs)"
      using False 1(2) by (simp add: leftover.simps[of n xs])
    ultimately show ?thesis using 1(1) ne 1(2) by simp
  qed
qed

lemma concat_chunks: "0 < n \<Longrightarrow> concat (chunks n xs) = xs"
proof (induction n xs rule: chunks.induct)
  case (1 n xs)
  then show ?case by (cases "xs = []") (simp_all add: chunks_step)
qed

lemma chunks_sizes: "b \<in> set (chunks n xs) \<Longrightarrow> 0 < length b \<and> length b \<le> n"
proof (induction n xs rule: chunks.induct)
  case (1 n xs)
  show ?case
  proof (cases "n = 0 \<or> xs = []")
    case True
    with 1(2) show ?thesis by (simp add: chunks.simps[of n xs])
  next
    case False
    with 1(2) have "b = take n xs \<or> b \<in> set (chunks n (drop n xs))"
      by (simp add: chunks.simps[of n xs])
    then show ?thesis using 1(1) False by auto
  qed
qed

lemma length_chunks: "0 < n \<Longrightarrow> length (chunks n xs) = (length xs + n - 1) div n"
proof (induction n xs rule: chunks.induct)
  case (1 n xs)
  show ?case
  proof (cases "xs = []")
    case True
    then show ?thesis using 1(2) by simp
  next
    case False
    then have pos: "0 < length xs" by simp
    have "length (chunks n xs) = Suc ((length (drop n xs) + n - 1) div n)"
      using 1 False by (simp add: chunks_step)
    also have "(length (drop n xs) + n - 1) div n = (length xs - 1) div n"
    proof (cases "n \<le> length xs")
      case True
      then have "length (drop n xs) + n - 1 = length xs - 1" by simp
      then show ?thesis by simp
    next
      case False
      then show ?thesis using 1(2) by simp
    qed
    also have "Suc ((length xs - 1) div n) = ((length xs - 1) + n) div n"
      using 1(2) by (simp only: div_add_self2)
    also have "(length xs - 1) + n = length xs + n - 1" using pos by arith
    finally show ?thesis .
  qed
qed

subsection \<open>The deleter, undisturbed\<close>

lemma cut_point_le: "cut_point env t ms \<le> length ms"
  by (induction ms arbitrary: t) auto

lemma cut_point_unique:
  "k \<le> length ms \<Longrightarrow>
   (\<forall>i<k. \<not> is_older_than_14d (clock env (t + i)) (ms ! i)) \<Longrightarrow>
   (k < length ms \<longrightarrow> is_older_than_14d (clock env (t + k)) (ms ! k)) \<Longrightarrow>
   cut_point env t ms = k"
proof (induction ms arbitrary: t k)
  case Nil
  then show ?case by simp
next
  case (Cons m ms)
  show ?case
  proof (cases k)
    case 0
    with Cons.prems show ?thesis by simp
  next
    case (Suc k')
    have m: "\<not> is_older_than_14d (clock env t) m"
      using Cons.prems(2) Suc by (auto dest: spec[of _ 0])
    have "cut_point env (Suc t) ms = k'"
    proof (rule Cons.IH)
      show "k' \<le> length ms" using Cons.prems(1) Suc by simp
      show "\<forall>i<k'. \<not> is_older_than_14d (clock env (Suc t + i)) (ms ! i)"
      proof (intro allI impI)
        fix i assume "i < k'"
        then have "Suc i < k" using Suc by simp
        with Cons.prems(2) have "\<not> is_older_than_14d (clock env (t + Suc i)) ((m # ms) ! Suc i)"
          by blast
        then show "\<not> is_older_than_14d (clock env (Suc t + i)) (ms ! i)" by simp
      qed
      show "k' < length ms \<longrightarrow> is_older_than_14d (clock env (Suc t + k')) (ms ! k')"
        using Cons.prems(3) Suc by simp
    qed
    with m Suc show ?thesis by simp
  qed
qed

lemma await_quiet:
  "uninterrupted env \<Longrightarrow> cleaning w \<Longrightarrow>
   await env e w = (outcome (replies env (length (trace w))), w\<lparr>trace := trace w @ [e]\<rparr>)"
  by (simp add: await_def uninterrupted_def Let_def)

lemma outcome_quiet: "uninterrupted env \<Longrightarrow> outcome (replies env p) \<noteq> HTTPError"
  by (simp add: uninterrupted_def)

lemma individually_loop_quiet:
  assumes env: "uninterrupted env"
  shows "cleaning w \<Longrightarrow>
    individually_loop env ms deleted w =
      (Inr (deleted @ confirmed env (length (trace w)) ms),
       w\<lparr>trace := trace w @ map DeleteMessage ms\<rparr>)"
proof (induction ms arbitrary: deleted w)
  case Nil
  then show ?case by simp
next
  case (Cons m ms)
  let ?w' = "w\<lparr>trace := trace w @ [DeleteMessage m]\<rparr>"
  have aw: "await env (DeleteMessage m) w = (outcome (replies env (length (trace w))), ?w')"
    using env Cons.prems by (rule await_quiet)
  have cl: "cleaning ?w'" using Cons.prems by simp
  note ih = Cons.IH [OF cl]
  show ?case
  proof (cases "outcome (replies env (length (trace w)))")
    case Done
    then show ?thesis using Cons.prems aw ih by simp
  next
    case NotFound
    then show ?thesis using Cons.prems aw ih by simp
  next
    case HTTPError
    then show ?thesis using outcome_quiet [OF env] by blast
  qed
qed

lemma scan_loop_quiet:
  assumes env: "uninterrupted env"
  shows "cleaning w \<Longrightarrow> length b < 100 \<Longrightarrow>
    scan_loop env c i ms b deleted w =
      (let k = cut_point env (ticks w) ms;
           b' = leftover 100 (b @ take k ms);
           d' = deleted @ concat (full_batches 100 (b @ take k ms))
       in (Inr (if k < length ms then Broke (i + k) b' d' else Exhausted b' d'),
           w\<lparr>trace := trace w @ map (BulkDelete c) (full_batches 100 (b @ take k ms)),
             ticks := ticks w + (if k < length ms then Suc k else k)\<rparr>))"
proof (induction ms arbitrary: i b deleted w)
  case Nil
  then show ?case by (simp add: full_batches_short leftover_short)
next
  case (Cons m ms)
  let ?w1 = "w\<lparr>ticks := Suc (ticks w)\<rparr>"
  have tt: "time_time env w = (clock env (ticks w), ?w1)" by (simp add: time_time_def)
  show ?case
  proof (cases "is_older_than_14d (clock env (ticks w)) m")
    case True
    then show ?thesis using Cons.prems tt
      by (simp add: full_batches_short leftover_short)
  next
    case False
    let ?b1 = "b @ [m]"
    show ?thesis
    proof (cases "length ?b1 = 100")
      case full: True
      let ?w2 = "?w1\<lparr>trace := trace w @ [BulkDelete c ?b1]\<rparr>"
      have aw: "await env (BulkDelete c ?b1) ?w1 = (outcome (replies env (length (trace w))), ?w2)"
        using await_quiet [OF env, of ?w1 "BulkDelete c ?b1"] Cons.prems by simp
      have step: "scan_loop env c i (m # ms) b deleted w =
                  scan_loop env c (Suc i) ms [] (deleted @ ?b1) ?w2"
        using Cons.prems tt False full aw outcome_quiet [OF env, of "length (trace w)"]
        by (cases "outcome (replies env (length (trace w)))") (simp_all add: Let_def)
      have ih: "scan_loop env c (Suc i) ms [] (deleted @ ?b1) ?w2 =
          (let k = cut_point env (ticks ?w2) ms;
               b' = leftover 100 ([] @ take k ms);
               d' = (deleted @ ?b1) @ concat (full_batches 100 ([] @ take k ms))
           in (Inr (if k < length ms then Broke (Suc i + k) b' d' else Exhausted b' d'),
               ?w2\<lparr>trace := trace ?w2 @ map (BulkDelete c) (full_batches 100 ([] @ take k ms)),
                 ticks := ticks ?w2 + (if k < length ms then Suc k else k)\<rparr>))"
        using Cons.prems by (intro Cons.IH) simp_all
      have fb: "\<And>xs. full_batches 100 (b @ m # xs) = ?b1 # full_batches 100 xs"
        using full_batches_append [of 100 ?b1] full by simp
      have lo: "\<And>xs. leftover 100 (b @ m # xs) = leftover 100 xs"
        using leftover_append [of 100 ?b1] full by simp
      show ?thesis
        unfolding step ih using False by (simp add: Let_def fb lo)
    next
      case part: False
      then have short: "length ?b1 < 100" using Cons.prems by simp
      have step: "scan_loop env c i (m # ms) b deleted w =
                  scan_loop env c (Suc i) ms ?b1 deleted ?w1"
        using Cons.prems tt False part by (simp add: Let_def)
      have cl: "cleaning ?w1" using Cons.prems by simp
      show ?thesis
        unfolding step Cons.IH [OF cl short] using False by (simp add: Let_def)
    qed
  qed
qed

lemma bulk_events:
  "map (BulkDelete c) (full_batches 100 xs) @
     (if leftover 100 xs = [] then [] else [BulkDelete c (leftover 100 xs)]) =
   map (BulkDelete c) (chunks 100 xs)"
  by (simp add: chunks_batches)

lemma batches_all: "concat (full_batches 100 xs) @ leftover 100 xs = xs"
  using concat_chunks [of 100 xs] by (simp add: chunks_batches split: if_splits)

lemma length_chunks_batches:
  "length (chunks 100 xs) = length (full_batches 100 xs) + (if leftover 100 xs = [] then 0 else 1)"
  by (simp add: chunks_batches)

lemma delete_in_channel_quiet:
  assumes env: "uninterrupted env" and cl: "cleaning w"
  shows "delete_in_channel env c ms deleted w =
      (let k = cut_point env (ticks w) ms
       in (Inr (Continue (deleted @ take k ms @
                  confirmed env (length (trace w) + length (chunks 100 (take k ms))) (drop k ms))),
           w\<lparr>trace := trace w @ map (BulkDelete c) (chunks 100 (take k ms)) @
                          map DeleteMessage (drop k ms),
             ticks := ticks w + (if k < length ms then Suc k else k)\<rparr>))"
proof -
  define k where "k = cut_point env (ticks w) ms"
  define xs where "xs = take k ms"
  define b' where "b' = leftover 100 xs"
  define d' where "d' = deleted @ concat (full_batches 100 xs)"
  define w1 where "w1 = w\<lparr>trace := trace w @ map (BulkDelete c) (full_batches 100 xs),
                          ticks := ticks w + (if k < length ms then Suc k else k)\<rparr>"
  have scan: "scan_loop env c 0 ms [] deleted w =
                (Inr (if k < length ms then Broke k b' d' else Exhausted b' d'), w1)"
    using scan_loop_quiet [OF env cl, of "[]" c 0 ms deleted]
    by (simp add: Let_def k_def xs_def b'_def d'_def w1_def)
  have cl1: "cleaning w1" using cl by (simp add: w1_def)
  define w2 where "w2 = w\<lparr>trace := trace w @ map (BulkDelete c) (chunks 100 xs),
                          ticks := ticks w + (if k < length ms then Suc k else k)\<rparr>"
  have cl2: "cleaning w2" using cl by (simp add: w2_def)
  have flush: "(if length b' > 0
                 then (case await env (BulkDelete c b') w1 of
                         (HTTPError, w1') \<Rightarrow> (Inl HTTPException, w1')
                       | (_, w1') \<Rightarrow> (Inr (d' @ b'), w1'))
                 else (Inr d', w1)) = (Inr (deleted @ xs), w2)"
  proof (cases "b' = []")
    case True
    then show ?thesis
      using batches_all [of xs] bulk_events [of c xs]
      by (simp add: d'_def b'_def w1_def w2_def)
  next
    case False
    have aw: "await env (BulkDelete c b') w1 =
                (outcome (replies env (length (trace w1))), w1\<lparr>trace := trace w1 @ [BulkDelete c b']\<rparr>)"
      using env cl1 by (rule await_quiet)
    have w2': "w1\<lparr>trace := trace w1 @ [BulkDelete c b']\<rparr> = w2"
      using False bulk_events [of c xs] by (simp add: w1_def w2_def b'_def)
    have "d' @ b' = deleted @ xs" using batches_all [of xs] by (simp add: d'_def b'_def)
    then show ?thesis
      using False aw w2' outcome_quiet [OF env, of "length (trace w1)"]
      by (cases "outcome (replies env (length (trace w1)))") simp_all
  qed
  have after: "after_scan env c ms delete_old k b' d' w1 =
      (if delete_old
       then (case delete_messages_individually env (drop k ms) w2 of
               (Inl e, w3) \<Rightarrow> (Inl e, w3)
             | (Inr old_deleted, w3) \<Rightarrow> (Inr (Continue ((deleted @ xs) @ old_deleted)), w3))
       else (Inr (Continue (deleted @ xs)), w2))" for delete_old
    unfolding after_scan_def using cl1 cl2 by (simp only: flush) simp
  have indiv: "delete_messages_individually env (drop k ms) w2 =
      (Inr (confirmed env (length (trace w2)) (drop k ms)),
       w2\<lparr>trace := trace w2 @ map DeleteMessage (drop k ms)\<rparr>)"
    using individually_loop_quiet [OF env cl2, of "drop k ms" "[]"]
    by (simp add: delete_messages_individually_def)
  show ?thesis
  proof (cases "k < length ms")
    case True
    then show ?thesis
      unfolding delete_in_channel_def scan
      using after [of True] indiv
      by (simp add: Let_def k_def [symmetric] xs_def [symmetric] w2_def)
  next
    case False
    then have "drop k ms = []" by simp
    moreover have "after_scan env c ms False 0 b' d' w1 = (Inr (Continue (deleted @ xs)), w2)"
      unfolding after_scan_def using cl1 cl2 by (simp only: flush) simp
    ultimately show ?thesis
      unfolding delete_in_channel_def scan
      using False
      by (simp add: Let_def k_def [symmetric] xs_def [symmetric] w2_def)
  qed
qed

lemma delete_found_quiet:
  assumes env: "uninterrupted env" and cl: "cleaning w"
  shows "delete_found env [(c, ms)] w =
      (let k = cut_point env (ticks w) ms
       in (Inr (take k ms @
                  confirmed env (length (trace w) + length (chunks 100 (take k ms))) (drop k ms)),
           w\<lparr>trace := trace w @ map (BulkDelete c) (chunks 100 (take k ms)) @
                          map DeleteMessage (drop k ms),
             ticks := ticks w + (if k < length ms then Suc k else k)\<rparr>))"
  by (simp add: delete_found_def delete_in_channel_quiet [OF env cl] Let_def)

lemma cut_point_none:
  "(\<And>m t. m \<in> set ms \<Longrightarrow> \<not> is_older_than_14d (clock env t) m) \<Longrightarrow> cut_point env t ms = length ms"
  by (induction ms arbitrary: t) auto

lemma chunks_two:
  "100 < length xs \<Longrightarrow> length xs \<le> 200 \<Longrightarrow> chunks 100 xs = [take 100 xs, drop 100 xs]"
proof -
  assume a: "100 < length xs" "length xs \<le> 200"
  then have "xs \<noteq> []" "drop 100 xs \<noteq> []" by auto
  then have "chunks 100 xs = take 100 xs # take 100 (drop 100 xs) # chunks 100 (drop 100 (drop 100 xs))"
    by (simp add: chunks_step)
  then show ?thesis using a by simp
qed

lemma recent_not_older: "0 \<le> i \<Longrightarrow> \<not> is_older_than_14d 1700000000 (example_message (recent i))"
  by (simp add: is_older_than_14d_def py_int_def example_message_def recent_def push_bit_eq_mult)



lemma uninterrupted_one_gone: "uninterrupted one_gone"
  by (simp add: uninterrupted_def calm_def one_gone_def)



text \<open>
  What holds of C1: \<open>N\<close> bulk-eligible messages go out in the batches
  \<open>chunks 100\<close>, which are \<open>\<lceil>N/100\<rceil>\<close> many and of at most 100 messages each
  (\<open>length_chunks\<close>, \<open>chunks_sizes\<close>). The list returned is all \<open>N\<close> messages,
  whatever the replies were.
\<close>

lemma delete_found_bulk_eligible:
  assumes "uninterrupted env" and "cleaning w"
    and "\<forall>i<length messages. \<not> is_older_than_14d (clock env (ticks w + i)) (messages ! i)"
  shows "delete_found env [(channel, messages)] w =
           (Inr messages,
            w\<lparr>trace := trace w @ map (BulkDelete channel) (chunks 100 messages),
              ticks := ticks w + length messages\<rparr>)"
proof -
  have k: "cut_point env (ticks w) messages = length messages"
    using assms(3) by (intro cut_point_unique) simp_all
  show ?thesis
    using delete_found_quiet [OF assms(1,2), of channel messages]
    by (simp add: Let_def k)
qed

text \<open>
  C1 fails on the code. 101 bulk-eligible messages, the flag set throughout; the second
  bulk call, which carries the one remaining message, is answered \<^verbatim>\<open>NotFound\<close>.
  The claim has a list of 100 messages returned; \<^verbatim>\<open>_delete_found\<close> returns all
  101, because \<^verbatim>\<open>deleted.extend(to_delete)\<close> stands after the \<^verbatim>\<open>with suppress(NotFound)\<close>
  block and not inside it, as the append of \<^verbatim>\<open>_delete_messages_individually\<close> does.
\<close>

theorem delete_found_counts_vanished:
  "fst (delete_found one_gone [(TextChannel 1, recent_messages 101)] started) = Inr (recent_messages 101) \<and>
   length (recent_messages 101) = 101 \<and>
   trace (snd (delete_found one_gone [(TextChannel 1, recent_messages 101)] started)) =
     [BulkDelete (TextChannel 1) (take 100 (recent_messages 101)),
      BulkDelete (TextChannel 1) (drop 100 (recent_messages 101))] \<and>
   outcome (replies one_gone 1) = NotFound"
proof -
  have len: "length (recent_messages 101) = 101" by (simp add: recent_messages_def)
  have fresh: "\<forall>i<length (recent_messages 101).
      \<not> is_older_than_14d (clock one_gone (ticks started + i)) (recent_messages 101 ! i)"
    using recent_not_older by (simp add: recent_messages_def one_gone_def calm_def rev_nth)
  have cl: "cleaning started" by (simp add: started_def)
  have ch: "chunks 100 (recent_messages 101) = [take 100 (recent_messages 101), drop 100 (recent_messages 101)]"
    using len by (intro chunks_two) simp_all
  show ?thesis
    using delete_found_bulk_eligible [OF uninterrupted_one_gone cl fresh, of "TextChannel 1"]
    by (simp add: ch len started_def) (simp add: one_gone_def)
qed

subsection \<open>The deleter under cancellation\<close>

lemma guarded_refl [simp]: "guarded env w w"
  unfolding guarded_def by (intro exI [of _ "[]"]) auto

lemma guarded_ticks [simp]: "guarded env w (w\<lparr>ticks := t\<rparr>)"
  unfolding guarded_def by (intro exI [of _ "[]"]) auto




lemma accounted_refl [simp]: "accounted env w w d d"
  by (simp add: accounted_def)


















subsection \<open>The flag at the end of a cleanup\<close>

lemma await_down: "\<not> cleaning w \<Longrightarrow> await env e w = (r, w') \<Longrightarrow> \<not> cleaning w'"
  by (auto simp: await_def Let_def)

lemma send_expiring_message_down:
  "\<not> cleaning w \<Longrightarrow> send_expiring_message env ctx text w = (r, w') \<Longrightarrow> \<not> cleaning w'"
  by (auto simp: send_expiring_message_def Let_def await_def split: outcome.splits)

lemma modlog_cleaned_messages_down:
  "\<not> cleaning w \<Longrightarrow> modlog_cleaned_messages env messages channels ctx w = (r, w') \<Longrightarrow> \<not> cleaning w'"
  by (auto simp: modlog_cleaned_messages_def send_expiring_message_def Let_def await_def
      split: if_splits outcome.splits)

lemma invoke_Inl: "invoke (Inl e, w) = (Inl e, w\<lparr>cleaning := False\<rparr>)"
  by (simp add: invoke_def cog_command_error_def)

lemma invoke_Inr: "invoke (Inr x, w) = (Inr x, w)"
  by (simp add: invoke_def)

lemma session_returns_down:
  assumes run: "session env ctx traverse chs predicate f s use_cache w0 = (Inr x, w')"
  shows "\<not> cleaning w'"
proof -
  obtain r1 w1 where inv: "delete_invocation env ctx w0 = (r1, w1)"
    by (cases "delete_invocation env ctx w0")
  obtain r2 w2 where get: "get_messages env ctx traverse chs use_cache predicate f s w1 = (r2, w2)"
    by (cases "get_messages env ctx traverse chs use_cache predicate f s w1")
  from run inv have r1: "r1 = Inr ()"
    by (cases r1) (auto simp: session_def)
  from run inv r1 get obtain mm ids where r2: "r2 = Inr (mm, ids)"
    by (cases r2) (auto simp: session_def)
  show ?thesis
  proof (cases "cleaning w2")
    case False
    with run inv r1 get r2 have "w' = w2" by (simp add: session_def)
    with False show ?thesis by simp
  next
    case True
    obtain r3 w3 where del: "delete_found env mm w2 = (r3, w3)"
      by (cases "delete_found env mm w2")
    from run inv r1 get r2 True del obtain deleted where r3: "r3 = Inr deleted"
      by (cases r3) (auto simp: session_def)
    define w4 where "w4 = w3\<lparr>cleaning := False\<rparr>"
    obtain r5 w5 where log: "modlog_cleaned_messages env deleted chs ctx w4 = (r5, w5)"
      by (cases "modlog_cleaned_messages env deleted chs ctx w4")
    have d5: "\<not> cleaning w5"
      using modlog_cleaned_messages_down [OF _ log] by (simp add: w4_def)
    from run inv r1 get r2 True del r3 log obtain logged where r5: "r5 = Inr logged"
      by (cases r5) (auto simp: session_def Let_def w4_def)
    show ?thesis
    proof (cases "logged \<and> is_mod_channel env (ctx_channel ctx)")
      case False
      with run inv r1 get r2 True del r3 log r5 have "w' = w5"
        by (auto simp: session_def Let_def w4_def)
      with d5 show ?thesis by simp
    next
      case react: True
      obtain r6 w6 where aw: "await env (AddReaction (ctx_message ctx)) w5 = (r6, w6)"
        by (cases "await env (AddReaction (ctx_message ctx)) w5")
      with run inv r1 get r2 True del r3 log r5 react have "w' = w6"
        by (cases r6) (auto simp: session_def Let_def w4_def)
      with await_down [OF d5 aw] show ?thesis by simp
    qed
  qed
qed

lemma clean_messages_returns_down:
  assumes run: "clean_messages env ctx traverse channels bots_only users regex first_limit
                  second_limit use_cache w = (Inr x, w')"
    and idle: "\<not> cleaning w"
  shows "\<not> cleaning w'"
proof -
  obtain f s where lim: "standardize_limits first_limit second_limit = (f, s)"
    by (cases "standardize_limits first_limit second_limit")
  from run idle have valid: "validate_input (message_limit env) traverse channels bots_only users
      first_limit second_limit = Inr ()"
    by (auto simp: clean_messages_def split: sum.splits)
  from run idle valid lim
  have "session env ctx traverse (default_channels ctx channels first_limit second_limit)
          (build_predicate bots_only users regex f s) f s use_cache (w\<lparr>cleaning := True\<rparr>) = (Inr x, w')"
    by (simp add: clean_messages_def Let_def)
  then show ?thesis by (rule session_returns_down)
qed

text \<open>
  C7. A cleanup that starts with the flag down leaves it down, however it ends: the
  return after a cancellation was seen, the return at the end, and an exception of
  any call (the deletion of the invocation, a fetch, a deletion, the upload of the
  log, the notices), which reaches \<^verbatim>\<open>cog_command_error\<close> through \<open>invoke\<close>.
\<close>

theorem clean_messages_clears_flag:
  assumes "\<not> cleaning w"
  shows "\<not> cleaning (snd (invoke (clean_messages env ctx traverse channels bots_only users regex
                                  first_limit second_limit use_cache w)))"
proof -
  obtain r w' where run: "clean_messages env ctx traverse channels bots_only users regex
                            first_limit second_limit use_cache w = (r, w')"
    by (cases "clean_messages env ctx traverse channels bots_only users regex
                 first_limit second_limit use_cache w")
  show ?thesis
  proof (cases r)
    case (Inl e)
    then show ?thesis by (simp add: run invoke_Inl)
  next
    case (Inr x)
    with run assms have "\<not> cleaning w'" by (auto dest: clean_messages_returns_down)
    with Inr show ?thesis by (simp add: run invoke_Inr)
  qed
qed

theorem clean_messages_clears_flag_witness:
  "\<not> cleaning idle \<and>
   invoke (clean_messages (failing_at 1) here 10 None False None None None None (Some True) idle) =
     (Inl HTTPException,
      \<lparr>cleaning = False,
        trace = [DeleteMessage command_message, HistoryNext (TextChannel 1) 10 None None],
        ticks = 0\<rparr>)"
proof -
  have "\<not> cleaning idle" by (simp add: idle_def)
  moreover have "clean_messages (failing_at 1) here 10 None False None None None None (Some True) idle =
     (Inl HTTPException,
      \<lparr>cleaning = True,
        trace = [DeleteMessage command_message, HistoryNext (TextChannel 1) 10 None None],
        ticks = 0\<rparr>)"
    by (simp add: clean_messages_def session_def validate_input_def truthy_def default_channels_def
        standardize_limits_def delete_invocation_def get_messages_def
        get_messages_from_channels_def await_def failing_at_def calm_def here_def idle_def
        Let_def raised_def)
  ultimately show ?thesis
    using clean_messages_clears_flag [of idle "failing_at 1" here 10 None False None None None None "Some True"]
    by (simp add: invoke_Inl)
qed

text \<open>
  C6 fails on the code. A cleanup is running; a second one is asked for with bots only
  and a user, which \<^verbatim>\<open>_validate_input\<close> refuses before the flag is looked at. The
  exception reaches \<^verbatim>\<open>cog_command_error\<close>, which clears the flag of the cleanup that
  is running, and no notice was sent.
\<close>

theorem clean_group_invalid_while_cleaning:
  "cleaning started \<and>
   invoke (clean_group calm here (Some [alice]) None None None None True None None started) =
     (Inl (BadArgument ''Marked as bots only, but users were specified.''),
      \<lparr>cleaning = False, trace = [], ticks = 0\<rparr>)"
  by (simp add: clean_group_def clean_messages_def validate_input_def truthy_def invoke_def
      cog_command_error_def started_def calm_def DEFAULT_TRAVERSE_def)

text \<open>What holds of C6: with arguments that pass the validation, the second cleanup is
  the notice and nothing else.\<close>

lemma clean_messages_while_cleaning:
  assumes "cleaning w"
    and "validate_input (message_limit env) traverse channels bots_only users first_limit second_limit = Inr ()"
  shows "clean_messages env ctx traverse channels bots_only users regex first_limit second_limit use_cache w =
           send_expiring_message env ctx
             '':x: Please wait for the currently ongoing clean operation to complete.'' w"
  using assms by (simp add: clean_messages_def)

subsection \<open>The events of each function\<close>

lemma emits_refl [simp]: "emits P w w"
  by (simp add: emits_def)

lemma emits_trans: "emits P w w1 \<Longrightarrow> emits P w1 w2 \<Longrightarrow> emits P w w2"
  by (auto simp: emits_def)

lemma emits_await: "P e \<Longrightarrow> await env e w = (r, w') \<Longrightarrow> emits P w w'"
  by (auto simp: emits_def await_def Let_def)

lemma emits_ticks [simp]: "emits P w (w\<lparr>ticks := t\<rparr>)"
  by (simp add: emits_def)

lemma emits_cleaning: "emits P w w' \<Longrightarrow> emits P (w\<lparr>cleaning := b\<rparr>) w'"
  by (simp add: emits_def)

lemma emits_cleaning' : "emits P w w' \<Longrightarrow> emits P w (w'\<lparr>cleaning := b\<rparr>)"
  by (simp add: emits_def)

lemma individually_loop_emits:
  assumes P: "\<And>m. P (DeleteMessage m)"
  shows "individually_loop env ms deleted w = (r, w') \<Longrightarrow> emits P w w'"
proof (induction ms arbitrary: deleted w)
  case Nil
  then show ?case by simp
next
  case (Cons m ms)
  show ?case
  proof (cases "cleaning w")
    case False
    with Cons.prems show ?thesis by simp
  next
    case True
    obtain r1 w1 where aw: "await env (DeleteMessage m) w = (r1, w1)"
      by (cases "await env (DeleteMessage m) w")
    have e1: "emits P w w1" using P aw by (rule emits_await [where P = P])
    show ?thesis
    proof (cases r1)
      case Done
      with Cons.prems True aw have "individually_loop env ms (deleted @ [m]) w1 = (r, w')" by simp
      from e1 Cons.IH [OF this] show ?thesis by (rule emits_trans)
    next
      case NotFound
      with Cons.prems True aw have "individually_loop env ms deleted w1 = (r, w')" by simp
      from e1 Cons.IH [OF this] show ?thesis by (rule emits_trans)
    next
      case HTTPError
      with Cons.prems True aw have "w' = w1" by simp
      with e1 show ?thesis by simp
    qed
  qed
qed

lemma scan_loop_emits:
  assumes P: "\<And>c ms. P (BulkDelete c ms)"
  shows "scan_loop env c i ms b deleted w = (r, w') \<Longrightarrow> emits P w w'"
proof (induction ms arbitrary: i b deleted w)
  case Nil
  then show ?case by simp
next
  case (Cons m ms)
  show ?case
  proof (cases "cleaning w")
    case False
    with Cons.prems show ?thesis by simp
  next
    case True
    let ?w1 = "w\<lparr>ticks := Suc (ticks w)\<rparr>"
    have tt: "time_time env w = (clock env (ticks w), ?w1)" by (simp add: time_time_def)
    show ?thesis
    proof (cases "is_older_than_14d (clock env (ticks w)) m")
      case old: True
      with Cons.prems True tt have "w' = ?w1" by simp
      then show ?thesis by simp
    next
      case fresh: False
      show ?thesis
      proof (cases "length (b @ [m]) = 100")
        case part: False
        with Cons.prems True tt fresh
        have "scan_loop env c (Suc i) ms (b @ [m]) deleted ?w1 = (r, w')" by (simp add: Let_def)
        from emits_ticks Cons.IH [OF this] show ?thesis by (rule emits_trans)
      next
        case full: True
        obtain r2 w2 where aw: "await env (BulkDelete c (b @ [m])) ?w1 = (r2, w2)"
          by (cases "await env (BulkDelete c (b @ [m])) ?w1")
        have e2: "emits P w w2" using emits_trans [OF emits_ticks emits_await [where P = P, OF P aw]] .
        show ?thesis
        proof (cases "r2 = HTTPError")
          case True
          with Cons.prems \<open>cleaning w\<close> tt fresh full aw have "w' = w2" by (simp add: Let_def)
          with e2 show ?thesis by simp
        next
          case False
          with Cons.prems \<open>cleaning w\<close> tt fresh full aw
          have "scan_loop env c (Suc i) ms [] (deleted @ b @ [m]) w2 = (r, w')"
            by (cases r2) (simp_all add: Let_def)
          from e2 Cons.IH [OF this] show ?thesis by (rule emits_trans)
        qed
      qed
    qed
  qed
qed

lemma after_scan_emits:
  assumes P: "\<And>c ms. P (BulkDelete c ms)" "\<And>m. P (DeleteMessage m)"
    and run: "after_scan env c ms delete_old k b d w = (r, w')"
  shows "emits P w w'"
proof (cases "cleaning w")
  case False
  with run show ?thesis by (simp add: after_scan_def)
next
  case True
  have tail: "emits P w w'"
    if e1: "emits P w w1"
      and rest: "(if \<not> cleaning w1 then (Inr (Return d1), w1)
               else if delete_old
               then (case delete_messages_individually env (drop k ms) w1 of
                       (Inl e, w2) \<Rightarrow> (Inl e, w2)
                     | (Inr old_deleted, w2) \<Rightarrow> (Inr (Continue (d1 @ old_deleted)), w2))
               else (Inr (Continue d1), w1)) = (r, w')"
    for w1 d1
  proof (cases "\<not> cleaning w1 \<or> \<not> delete_old")
    case True
    with rest have "w' = w1" by (auto split: if_splits)
    with e1 show ?thesis by simp
  next
    case False
    obtain r2 w2 where ind: "delete_messages_individually env (drop k ms) w1 = (r2, w2)"
      by (cases "delete_messages_individually env (drop k ms) w1")
    with rest False have "w' = w2" by (cases r2) auto
    moreover have "emits P w1 w2"
      using individually_loop_emits [where P = P, OF P(2)] ind by (simp add: delete_messages_individually_def)
    ultimately show ?thesis using e1 by (auto intro: emits_trans)
  qed
  show ?thesis
  proof (cases "b = []")
    case empty: True
    have "(if \<not> cleaning w then (Inr (Return d), w)
               else if delete_old
               then (case delete_messages_individually env (drop k ms) w of
                       (Inl e, w2) \<Rightarrow> (Inl e, w2)
                     | (Inr old_deleted, w2) \<Rightarrow> (Inr (Continue (d @ old_deleted)), w2))
               else (Inr (Continue d), w)) = (r, w')"
      using run True empty by (simp add: after_scan_def)
    with emits_refl show ?thesis by (rule tail)
  next
    case False
    obtain r1 w1 where aw: "await env (BulkDelete c b) w = (r1, w1)"
      by (cases "await env (BulkDelete c b) w")
    have e1: "emits P w w1" using P(1) aw by (rule emits_await [where P = P])
    show ?thesis
    proof (cases "r1 = HTTPError")
      case True
      with run \<open>cleaning w\<close> False aw have "w' = w1" by (simp add: after_scan_def)
      with e1 show ?thesis by simp
    next
      case ok: False
      have "(if \<not> cleaning w1 then (Inr (Return (d @ b)), w1)
               else if delete_old
               then (case delete_messages_individually env (drop k ms) w1 of
                       (Inl e, w2) \<Rightarrow> (Inl e, w2)
                     | (Inr old_deleted, w2) \<Rightarrow> (Inr (Continue ((d @ b) @ old_deleted)), w2))
               else (Inr (Continue (d @ b)), w1)) = (r, w')"
        using run \<open>cleaning w\<close> False aw ok by (cases r1) (simp_all add: after_scan_def)
      with e1 show ?thesis by (rule tail)
    qed
  qed
qed

lemma delete_in_channel_emits:
  assumes P: "\<And>c ms. P (BulkDelete c ms)" "\<And>m. P (DeleteMessage m)"
    and run: "delete_in_channel env c ms deleted w = (r, w')"
  shows "emits P w w'"
proof -
  obtain r1 w1 where scan: "scan_loop env c 0 ms [] deleted w = (r1, w1)"
    by (cases "scan_loop env c 0 ms [] deleted w")
  have e1: "emits P w w1" using scan_loop_emits [where P = P, OF P(1) scan] .
  show ?thesis
  proof (cases r1)
    case (Inl e)
    with run scan have "w' = w1" by (simp add: delete_in_channel_def)
    with e1 show ?thesis by simp
  next
    case (Inr ex)
    show ?thesis
    proof (cases ex)
      case (Returned d)
      with run scan Inr have "w' = w1" by (simp add: delete_in_channel_def)
      with e1 show ?thesis by simp
    next
      case (Broke i' b' d')
      with run scan Inr have "after_scan env c ms True i' b' d' w1 = (r, w')"
        by (simp add: delete_in_channel_def)
      from e1 after_scan_emits [where P = P, OF P this] show ?thesis by (rule emits_trans)
    next
      case (Exhausted b' d')
      with run scan Inr have "after_scan env c ms False 0 b' d' w1 = (r, w')"
        by (simp add: delete_in_channel_def)
      from e1 after_scan_emits [where P = P, OF P this] show ?thesis by (rule emits_trans)
    qed
  qed
qed

lemma found_loop_emits:
  assumes P: "\<And>c ms. P (BulkDelete c ms)" "\<And>m. P (DeleteMessage m)"
  shows "found_loop env items deleted w = (r, w') \<Longrightarrow> emits P w w'"
proof (induction items arbitrary: deleted w)
  case Nil
  then show ?case by simp
next
  case (Cons item items)
  obtain c ms where item: "item = (c, ms)" by (cases item)
  obtain r1 w1 where ch: "delete_in_channel env c ms deleted w = (r1, w1)"
    by (cases "delete_in_channel env c ms deleted w")
  have e1: "emits P w w1" using delete_in_channel_emits [where P = P, OF P ch] .
  show ?case
  proof (cases r1)
    case (Inl e)
    with Cons.prems item ch have "w' = w1" by simp
    with e1 show ?thesis by simp
  next
    case (Inr fl)
    show ?thesis
    proof (cases fl)
      case (Return d)
      with Cons.prems item ch Inr have "w' = w1" by simp
      with e1 show ?thesis by simp
    next
      case (Continue d)
      with Cons.prems item ch Inr have "found_loop env items d w1 = (r, w')" by simp
      from e1 Cons.IH [OF this] show ?thesis by (rule emits_trans)
    qed
  qed
qed

lemma delete_found_emits:
  assumes "\<And>c ms. P (BulkDelete c ms)" "\<And>m. P (DeleteMessage m)"
    and "delete_found env mm w = (r, w')"
  shows "emits P w w'"
  using found_loop_emits [where P = P, OF assms(1,2)] assms(3) by (simp add: delete_found_def)

lemma history_loop_emits:
  assumes P: "P step"
  shows "history_loop env to_delete step ms mm ids w = (r, w') \<Longrightarrow> emits P w w'"
proof (induction ms arbitrary: mm ids w)
  case Nil
  obtain r1 w1 where aw: "await env step w = (r1, w1)" by (cases "await env step w")
  with Nil have "w' = w1" by (cases r1) auto
  with emits_await [where P = P, OF P aw] show ?case by simp
next
  case (Cons m ms)
  obtain r1 w1 where aw: "await env step w = (r1, w1)" by (cases "await env step w")
  have e1: "emits P w w1" using P aw by (rule emits_await [where P = P])
  show ?case
  proof (cases "r1 = Done \<and> cleaning w1")
    case False
    with Cons.prems aw have "w' = w1" by (cases r1) (auto split: if_splits)
    with e1 show ?thesis by simp
  next
    case True
    with Cons.prems aw
    have "history_loop env to_delete step ms
            (if to_delete m then mappings_append mm m else mm)
            (if to_delete m then ids @ [msg_id m] else ids) w1 = (r, w')"
      by auto
    from e1 Cons.IH [OF this] show ?thesis by (rule emits_trans)
  qed
qed

lemma channels_loop_emits:
  assumes P: "\<And>c. P (HistoryNext c traverse before_time after_time)"
  shows "channels_loop env traverse to_delete before_time after_time cs mm ids w = (r, w') \<Longrightarrow>
         emits P w w'"
proof (induction cs arbitrary: mm ids w)
  case Nil
  then show ?case by simp
next
  case (Cons c cs)
  obtain r1 w1 where h: "history_loop env to_delete (HistoryNext c traverse before_time after_time)
             (history env c traverse before_time after_time) mm ids w = (r1, w1)"
    by (cases "history_loop env to_delete (HistoryNext c traverse before_time after_time)
             (history env c traverse before_time after_time) mm ids w")
  have e1: "emits P w w1" using history_loop_emits [where P = P, OF P h] .
  show ?case
  proof (cases r1)
    case (Inl e)
    with Cons.prems h have "w' = w1" by simp
    with e1 show ?thesis by simp
  next
    case (Inr fl)
    show ?thesis
    proof (cases fl)
      case (Return x)
      with Cons.prems h Inr have "w' = w1" by simp
      with e1 show ?thesis by simp
    next
      case (Continue x)
      obtain mm1 ids1 where x: "x = (mm1, ids1)" by (cases x)
      with Cons.prems h Inr Continue
      have "channels_loop env traverse to_delete before_time after_time cs mm1 ids1 w1 = (r, w')"
        by simp
      from e1 Cons.IH [OF this] show ?thesis by (rule emits_trans)
    qed
  qed
qed

lemma send_expiring_message_emits:
  assumes "\<And>c t d. P (Send c t d)" and "send_expiring_message env ctx text w = (r, w')"
  shows "emits P w w'"
proof -
  let ?e = "Send (ctx_channel ctx) text
              (if is_mod_channel env (ctx_channel ctx) then None else Some MESSAGE_DELETE_DELAY)"
  obtain r1 w1 where aw: "await env ?e w = (r1, w1)" by (cases "await env ?e w")
  with assms(2) have "w' = w1"
    by (cases r1) (auto simp: send_expiring_message_def Let_def)
  with emits_await [where P = P, OF assms(1) aw] show ?thesis by simp
qed

lemma delete_invocation_emits:
  assumes "\<And>m. P (DeleteMessage m)" and "delete_invocation env ctx w = (r, w')"
  shows "emits P w w'"
proof (cases "is_mod_channel env (ctx_channel ctx)")
  case True
  with assms(2) show ?thesis by (simp add: delete_invocation_def)
next
  case False
  obtain r1 w1 where aw: "await env (DeleteMessage (ctx_message ctx)) w = (r1, w1)"
    by (cases "await env (DeleteMessage (ctx_message ctx)) w")
  with assms(2) False have "w' = w1" by (cases r1) (auto simp: delete_invocation_def)
  with emits_await [where P = P, OF assms(1) aw] show ?thesis by simp
qed

lemma modlog_cleaned_messages_emits:
  assumes P: "\<And>c t d. P (Send c t d)" "\<And>ms u. P (UploadLog ms u)" "\<And>n cs. P (SendLogMessage n cs)"
    and run: "modlog_cleaned_messages env messages channels ctx w = (r, w')"
  shows "emits P w w'"
proof (cases "messages = []")
  case True
  obtain r1 w1 where s: "send_expiring_message env ctx '':x: No matching messages could be found.'' w = (r1, w1)"
    by (cases "send_expiring_message env ctx '':x: No matching messages could be found.'' w")
  with run True have "w' = w1" by (cases r1) (auto simp: modlog_cleaned_messages_def)
  with send_expiring_message_emits [where P = P, OF P(1) s] show ?thesis by simp
next
  case False
  let ?u = "UploadLog (rev messages) (user_id (ctx_author ctx))"
  let ?l = "SendLogMessage (length messages) (case channels of AllChannels \<Rightarrow> None | Channels cs \<Rightarrow> Some cs)"
  obtain r1 w1 where a1: "await env ?u w = (r1, w1)" by (cases "await env ?u w")
  have e1: "emits P w w1" using emits_await [where P = P, OF P(2) a1] .
  show ?thesis
  proof (cases "r1 = Done")
    case ok: True
    obtain r2 w2 where a2: "await env ?l w1 = (r2, w2)" by (cases "await env ?l w1")
    with run False a1 ok have "w' = w2" by (cases r2) (auto simp: modlog_cleaned_messages_def)
    with emits_trans [OF e1 emits_await [where P = P, OF P(3) a2]] show ?thesis by simp
  next
    case False
    with run \<open>messages \<noteq> []\<close> a1 have "w' = w1" by (cases r1) (auto simp: modlog_cleaned_messages_def)
    with e1 show ?thesis by simp
  qed
qed

lemma get_messages_from_cache_emits:
  assumes "P CacheRead" and "get_messages_from_cache env traverse to_delete w = (r, w')"
  shows "emits P w w'"
proof (cases "traverse < 0")
  case True
  with assms(2) show ?thesis by (simp add: get_messages_from_cache_def)
next
  case False
  with assms(2) have "trace w' = trace w @ [CacheRead]"
    by (auto simp: get_messages_from_cache_def Let_def)
  with assms(1) show ?thesis by (simp add: emits_def)
qed

lemma get_messages_from_channels_emits:
  assumes "\<And>c. P (HistoryNext c traverse before_time after_time)"
    and "get_messages_from_channels env traverse cs to_delete before_time after_time w = (r, w')"
  shows "emits P w w'"
  using channels_loop_emits [where P = P, OF assms(1)] assms(2)
  by (simp add: get_messages_from_channels_def)

lemma get_messages_emits:
  assumes cache: "channels = AllChannels \<and> use_cache = Some True \<Longrightarrow> P CacheRead"
    and hist: "\<And>c. \<not> (channels = AllChannels \<and> use_cache = Some True) \<Longrightarrow>
                 P (HistoryNext c traverse second_limit first_limit)"
    and run: "get_messages env ctx traverse channels use_cache predicate first_limit second_limit w = (r, w')"
  shows "emits P w w'"
proof (cases "channels = AllChannels \<and> use_cache = Some True")
  case True
  with run have "get_messages_from_cache env traverse predicate w = (r, w')"
    by (simp add: get_messages_def)
  with cache [OF True] show ?thesis by (rule get_messages_from_cache_emits [where P = P])
next
  case False
  with run obtain cs where
    "get_messages_from_channels env traverse cs predicate second_limit first_limit w = (r, w')"
    by (auto simp: get_messages_def Let_def split: if_splits)
  with hist [OF False] show ?thesis by (rule get_messages_from_channels_emits [where P = P])
qed

lemma session_emits:
  assumes other: "\<And>e. \<not> is_enumeration e \<Longrightarrow> P e"
    and cache: "channels = AllChannels \<and> use_cache = Some True \<Longrightarrow> P CacheRead"
    and hist: "\<And>c. \<not> (channels = AllChannels \<and> use_cache = Some True) \<Longrightarrow>
                 P (HistoryNext c traverse second_limit first_limit)"
    and run: "session env ctx traverse channels predicate first_limit second_limit use_cache w = (r, w')"
  shows "emits P w w'"
proof -
  obtain r1 w1 where inv: "delete_invocation env ctx w = (r1, w1)"
    by (cases "delete_invocation env ctx w")
  have e1: "emits P w w1"
    by (rule delete_invocation_emits [where P = P, OF _ inv]) (simp add: other)
  show ?thesis
  proof (cases r1)
    case (Inl e)
    with run inv have "w' = w1" by (simp add: session_def)
    with e1 show ?thesis by simp
  next
    case ok1: (Inr u)
    obtain r2 w2 where get: "get_messages env ctx traverse channels use_cache predicate
                               first_limit second_limit w1 = (r2, w2)"
      by (cases "get_messages env ctx traverse channels use_cache predicate first_limit second_limit w1")
    have e2: "emits P w w2"
      using e1 get_messages_emits [where P = P, OF cache hist get] by (blast intro: emits_trans)
    show ?thesis
    proof (cases r2)
      case (Inl e)
      with run inv ok1 get have "w' = w2" by (simp add: session_def)
      with e2 show ?thesis by simp
    next
      case ok2: (Inr found)
      obtain mm ids where found: "found = (mm, ids)" by (cases found)
      show ?thesis
      proof (cases "cleaning w2")
        case False
        with run inv ok1 get ok2 found have "w' = w2" by (simp add: session_def)
        with e2 show ?thesis by simp
      next
        case True
        obtain r3 w3 where del: "delete_found env mm w2 = (r3, w3)"
          by (cases "delete_found env mm w2")
        have e3: "emits P w w3"
          using e2 delete_found_emits [where P = P, OF _ _ del] other by (auto intro: emits_trans)
        show ?thesis
        proof (cases r3)
          case (Inl e)
          with run inv ok1 get ok2 found True del have "w' = w3" by (simp add: session_def)
          with e3 show ?thesis by simp
        next
          case ok3: (Inr deleted)
          define w4 where "w4 = w3\<lparr>cleaning := False\<rparr>"
          have e4: "emits P w w4" using e3 by (simp add: w4_def emits_def)
          obtain r5 w5 where log: "modlog_cleaned_messages env deleted channels ctx w4 = (r5, w5)"
            by (cases "modlog_cleaned_messages env deleted channels ctx w4")
          have e5: "emits P w w5"
            using e4 modlog_cleaned_messages_emits [where P = P, OF _ _ _ log] other
            by (auto intro: emits_trans)
          show ?thesis
          proof (cases r5)
            case (Inl e)
            with run inv ok1 get ok2 found True del ok3 log have "w' = w5"
              by (simp add: session_def Let_def w4_def)
            with e5 show ?thesis by simp
          next
            case ok5: (Inr logged)
            show ?thesis
            proof (cases "logged \<and> is_mod_channel env (ctx_channel ctx)")
              case False
              with run inv ok1 get ok2 found True del ok3 log ok5 have "w' = w5"
                by (auto simp: session_def Let_def w4_def)
              with e5 show ?thesis by simp
            next
              case react: True
              obtain r6 w6 where aw: "await env (AddReaction (ctx_message ctx)) w5 = (r6, w6)"
                by (cases "await env (AddReaction (ctx_message ctx)) w5")
              with run inv ok1 get ok2 found True del ok3 log ok5 react have "w' = w6"
                by (cases r6) (auto simp: session_def Let_def w4_def)
              moreover have "emits P w5 w6"
                by (rule emits_await [where P = P, OF _ aw]) (simp add: other)
              ultimately show ?thesis using e5 by (auto intro: emits_trans)
            qed
          qed
        qed
      qed
    qed
  qed
qed

lemma standardize_limits_both:
  "standardize_limits (Some a) (Some b) =
     (Some (min (limit_time a) (limit_time b)), Some (max (limit_time a) (limit_time b)))"
  by (cases "limit_time a \<le> limit_time b") (simp_all add: standardize_limits_def min_def max_def)

text \<open>
  C8. With both limits given and the arguments valid, the cleanup is the session run
  with the two times \<open>lo \<le> hi\<close> of the limits (a message stands for its creation
  time) in this order: the predicate is built from \<open>lo\<close> and \<open>hi\<close>, and every
  fetch of a history in the run has \<open>after = lo\<close> and \<open>before = hi\<close>.
\<close>

theorem limits_sorted_before_use:
  assumes valid: "validate_input (message_limit env) traverse channels bots_only users
                    (Some first_limit) (Some second_limit) = Inr ()"
    and idle: "\<not> cleaning w"
  shows "\<exists>lo hi. lo \<le> hi \<and> {lo, hi} = {limit_time first_limit, limit_time second_limit} \<and>
           clean_messages env ctx traverse channels bots_only users regex
               (Some first_limit) (Some second_limit) use_cache w =
             session env ctx traverse
               (default_channels ctx channels (Some first_limit) (Some second_limit))
               (build_predicate bots_only users regex (Some lo) (Some hi)) (Some lo) (Some hi)
               use_cache (w\<lparr>cleaning := True\<rparr>) \<and>
           (\<forall>r w' c n before_time after_time.
              clean_messages env ctx traverse channels bots_only users regex
                  (Some first_limit) (Some second_limit) use_cache w = (r, w') \<and>
              HistoryNext c n before_time after_time \<in> set (issued w w') \<longrightarrow>
              after_time = Some lo \<and> before_time = Some hi)"
proof -
  let ?lo = "min (limit_time first_limit) (limit_time second_limit)"
  let ?hi = "max (limit_time first_limit) (limit_time second_limit)"
  let ?chs = "default_channels ctx channels (Some first_limit) (Some second_limit)"
  let ?P = "\<lambda>e. case e of HistoryNext c n b a \<Rightarrow> a = Some ?lo \<and> b = Some ?hi | _ \<Rightarrow> True"
  have eq: "clean_messages env ctx traverse channels bots_only users regex
               (Some first_limit) (Some second_limit) use_cache w =
             session env ctx traverse ?chs
               (build_predicate bots_only users regex (Some ?lo) (Some ?hi)) (Some ?lo) (Some ?hi)
               use_cache (w\<lparr>cleaning := True\<rparr>)"
    using valid idle by (simp add: clean_messages_def standardize_limits_both)
  have ev: "after_time = Some ?lo \<and> before_time = Some ?hi"
    if run: "clean_messages env ctx traverse channels bots_only users regex
                  (Some first_limit) (Some second_limit) use_cache w = (r, w')"
      and mem: "HistoryNext c n before_time after_time \<in> set (issued w w')"
    for r w' c n before_time after_time
  proof -
    from run eq have s: "session env ctx traverse ?chs
               (build_predicate bots_only users regex (Some ?lo) (Some ?hi)) (Some ?lo) (Some ?hi)
               use_cache (w\<lparr>cleaning := True\<rparr>) = (r, w')" by simp
    have "emits ?P (w\<lparr>cleaning := True\<rparr>) w'"
    proof (rule session_emits [where P = ?P, OF _ _ _ s])
      fix e show "\<not> is_enumeration e \<Longrightarrow> ?P e" by (cases e) simp_all
    qed simp_all
    then obtain es where t: "trace w' = trace w @ es" and all: "list_all ?P es"
      by (auto simp: emits_def)
    from t have "issued w w' = es" by (simp add: issued_def)
    with mem all have "?P (HistoryNext c n before_time after_time)"
      by (auto simp: list_all_iff)
    then show ?thesis by simp
  qed
  have le: "?lo \<le> ?hi" by simp
  have set: "{?lo, ?hi} = {limit_time first_limit, limit_time second_limit}"
    by (cases "limit_time first_limit \<le> limit_time second_limit") (auto simp: min_def max_def)
  show ?thesis
  proof (rule exI [of _ ?lo], rule exI [of _ ?hi], intro conjI allI impI)
    show "?lo \<le> ?hi" by (rule le)
    show "{?lo, ?hi} = {limit_time first_limit, limit_time second_limit}" by (rule set)
    show "clean_messages env ctx traverse channels bots_only users regex
               (Some first_limit) (Some second_limit) use_cache w =
             session env ctx traverse ?chs
               (build_predicate bots_only users regex (Some ?lo) (Some ?hi)) (Some ?lo) (Some ?hi)
               use_cache (w\<lparr>cleaning := True\<rparr>)" by (rule eq)
  next
    fix r w' c n before_time after_time
    assume a: "clean_messages env ctx traverse channels bots_only users regex
                  (Some first_limit) (Some second_limit) use_cache w = (r, w') \<and>
              HistoryNext c n before_time after_time \<in> set (issued w w')"
    then show "after_time = Some ?lo" using ev [of r w' c n before_time after_time] by simp
    from a show "before_time = Some ?hi" using ev [of r w' c n before_time after_time] by simp
  qed
qed

lemma default_channels_all:
  "default_channels ctx channels first_limit second_limit = AllChannels \<longleftrightarrow> channels = Some AllChannels"
proof (cases channels)
  case None
  then show ?thesis
    by (simp add: default_channels_def split: option.splits clean_limit.splits)
next
  case (Some chs)
  then show ?thesis
    by (cases chs) (simp_all add: default_channels_def split: option.splits clean_limit.splits)
qed

lemma emits_issued: "emits P w w' \<Longrightarrow> list_all P (issued w w')"
  by (auto simp: emits_def issued_def)

text \<open>
  C10. A cleanup reads the cache only when the channels are \<^verbatim>\<open>"*"\<close> and
  \<^verbatim>\<open>use_cache\<close> is true, and then it fetches no history; in every other case,
  the channels left out too (they default to a list), it never reads the cache.
  \<open>get_messages\<close> is the choice itself, lines 396 to 402. \<^verbatim>\<open>clean_group\<close>
  without \<^verbatim>\<open>use_cache\<close> behaves as with \<^verbatim>\<open>use_cache = (channels == "*")\<close>.
\<close>

theorem cache_only_for_wildcard:
  "(clean_messages env ctx traverse channels bots_only users regex first_limit second_limit
        use_cache w = (r, w') \<longrightarrow>
      (if channels = Some AllChannels \<and> use_cache = Some True
       then list_all (\<lambda>e. \<not> is_history e) (issued w w')
       else CacheRead \<notin> set (issued w w'))) \<and>
   get_messages env ctx traverse AllChannels (Some True) predicate lower_limit upper_limit w =
     get_messages_from_cache env traverse predicate w \<and>
   get_messages env ctx traverse (Channels cs) use_cache predicate lower_limit upper_limit w =
     get_messages_from_channels env traverse cs predicate upper_limit lower_limit w \<and>
   clean_group env ctx users given_traverse first_limit second_limit None bots_only regex channels w =
     clean_group env ctx users given_traverse first_limit second_limit
       (Some (channels = Some AllChannels)) bots_only regex channels w"
proof (intro conjI impI)
  assume run: "clean_messages env ctx traverse channels bots_only users regex first_limit
                 second_limit use_cache w = (r, w')"
  let ?cache = "channels = Some AllChannels \<and> use_cache = Some True"
  let ?P = "\<lambda>e. if ?cache then \<not> is_history e else e \<noteq> CacheRead"
  have "emits ?P w w'"
  proof (cases "validate_input (message_limit env) traverse channels bots_only users
                  first_limit second_limit")
    case (Inl e)
    with run have "w' = w" by (simp add: clean_messages_def)
    then show ?thesis by simp
  next
    case (Inr u)
    show ?thesis
    proof (cases "cleaning w")
      case True
      with run Inr have "send_expiring_message env ctx
          '':x: Please wait for the currently ongoing clean operation to complete.'' w = (r, w')"
        by (simp add: clean_messages_def)
      then show ?thesis
        by (rule send_expiring_message_emits [where P = ?P, rotated]) simp
    next
      case False
      obtain f s where lim: "standardize_limits first_limit second_limit = (f, s)"
        by (cases "standardize_limits first_limit second_limit")
      let ?chs = "default_channels ctx channels first_limit second_limit"
      from run Inr False lim
      have s: "session env ctx traverse ?chs (build_predicate bots_only users regex f s) f s
                 use_cache (w\<lparr>cleaning := True\<rparr>) = (r, w')"
        by (simp add: clean_messages_def Let_def)
      have "emits ?P (w\<lparr>cleaning := True\<rparr>) w'"
      proof (rule session_emits [where P = ?P, OF _ _ _ s])
        fix e show "\<not> is_enumeration e \<Longrightarrow> ?P e" by (cases e) simp_all
      next
        show "?chs = AllChannels \<and> use_cache = Some True \<Longrightarrow> ?P CacheRead"
          by (simp add: default_channels_all)
      next
        fix c show "\<not> (?chs = AllChannels \<and> use_cache = Some True) \<Longrightarrow> ?P (HistoryNext c traverse s f)"
          by (simp add: default_channels_all)
      qed
      then show ?thesis by (simp add: emits_def)
    qed
  qed
  from emits_issued [OF this]
  show "if ?cache then list_all (\<lambda>e. \<not> is_history e) (issued w w')
        else CacheRead \<notin> set (issued w w')"
    by (auto simp: list_all_iff)
next
  show "get_messages env ctx traverse AllChannels (Some True) predicate lower_limit upper_limit w =
          get_messages_from_cache env traverse predicate w"
    by (simp add: get_messages_def)
next
  show "get_messages env ctx traverse (Channels cs) use_cache predicate lower_limit upper_limit w =
          get_messages_from_channels env traverse cs predicate upper_limit lower_limit w"
    by (simp add: get_messages_def)
next
  show "clean_group env ctx users given_traverse first_limit second_limit None bots_only regex channels w =
     clean_group env ctx users given_traverse first_limit second_limit
       (Some (channels = Some AllChannels)) bots_only regex channels w"
    by (simp add: clean_group_def)
qed

subsection \<open>Cancellation while the messages are looked up\<close>

lemma cache_loop_down:
  "\<not> cleaning w \<Longrightarrow> cache_loop to_delete ms mm ids w = (mm, ids)"
  by (cases ms) simp_all

lemma cache_loop_up:
  "cleaning w \<Longrightarrow>
   cache_loop to_delete ms mm ids w =
     (foldl mappings_append mm (filter to_delete ms), ids @ map msg_id (filter to_delete ms))"
  by (induction ms arbitrary: mm ids) simp_all

lemma await_fst: "fst (await env e w) = outcome (replies env (length (trace w)))"
  by (simp add: await_def Let_def)

lemma await_snd:
  "snd (await env e w) =
     w\<lparr>cleaning := cleaning w \<and> \<not> stop (replies env (length (trace w))), trace := trace w @ [e]\<rparr>"
  by (simp add: await_def Let_def)

lemma down_now: "down env w 0 \<Longrightarrow> \<not> cleaning (snd (await env e w))"
  by (auto simp: down_def await_snd)

lemma down_later: "down env w (Suc k) \<Longrightarrow> down env (snd (await env e w)) k"
proof -
  assume "down env w (Suc k)"
  then consider "\<not> cleaning w" | j where "j \<le> Suc k" "stop (replies env (length (trace w) + j))"
    by (auto simp: down_def)
  then show ?thesis
  proof cases
    case 1
    then show ?thesis by (simp add: down_def await_snd)
  next
    case 2
    show ?thesis
    proof (cases j)
      case 0
      with 2 show ?thesis by (simp add: down_def await_snd)
    next
      case (Suc j')
      with 2 have "j' \<le> k" "stop (replies env (length (trace (snd (await env e w))) + j'))"
        by (simp_all add: await_snd)
      then show ?thesis unfolding down_def by blast
    qed
  qed
qed

lemma await_Done:
  "outcome (replies env (length (trace w))) = Done \<Longrightarrow> w1 = snd (await env e w) \<Longrightarrow>
   await env e w = (Done, w1)"
  using await_fst [of env e w] by (cases "await env e w") auto

lemma history_loop_stopped:
  "down env w k \<Longrightarrow> k < length ms \<Longrightarrow>
   (\<forall>i\<le>k. outcome (replies env (length (trace w) + i)) = Done) \<Longrightarrow>
   \<exists>w'. history_loop env to_delete step ms mm ids w = (Inr (Return ([], [])), w')"
proof (induction ms arbitrary: k mm ids w)
  case Nil
  then show ?case by simp
next
  case (Cons m ms)
  obtain w1 where w1: "w1 = snd (await env step w)" by simp
  have aw: "await env step w = (Done, w1)"
    using Cons.prems(3) w1 by (intro await_Done) auto
  show ?case
  proof (cases "cleaning w1")
    case False
    with aw show ?thesis by simp
  next
    case True
    with Cons.prems(1) w1 obtain k' where k: "k = Suc k'"
      by (cases k) (auto dest: down_now)
    have len: "length (trace w1) = Suc (length (trace w))" by (simp add: w1 await_snd)
    have "\<exists>w'. history_loop env to_delete step ms mm' ids' w1 = (Inr (Return ([], [])), w')"
      for mm' ids'
    proof (rule Cons.IH)
      show "down env w1 k'" using Cons.prems(1) k w1 by (simp add: down_later)
      show "k' < length ms" using Cons.prems(2) k by simp
      show "\<forall>i\<le>k'. outcome (replies env (length (trace w1) + i)) = Done"
      proof (intro allI impI)
        fix i assume "i \<le> k'"
        then have "Suc i \<le> k" using k by simp
        with Cons.prems(3) have "outcome (replies env (length (trace w) + Suc i)) = Done" by blast
        then show "outcome (replies env (length (trace w1) + i)) = Done" using len by simp
      qed
    qed
    with aw True show ?thesis by simp
  qed
qed

lemma history_loop_passes:
  "down env w k \<Longrightarrow> length ms < k \<Longrightarrow>
   (\<forall>i\<le>k. outcome (replies env (length (trace w) + i)) = Done) \<Longrightarrow>
   \<exists>w'. history_loop env to_delete step ms mm ids w = (Inr (Return ([], [])), w') \<or>
        (\<exists>found. history_loop env to_delete step ms mm ids w = (Inr (Continue found), w') \<and>
                 length (trace w') = length (trace w) + length ms + 1 \<and>
                 down env w' (k - (length ms + 1)))"
proof (induction ms arbitrary: k mm ids w)
  case Nil
  obtain w1 where w1: "w1 = snd (await env step w)" by simp
  have aw: "await env step w = (Done, w1)"
    using Nil.prems(3) w1 by (intro await_Done) auto
  from Nil.prems(2) obtain k' where k: "k = Suc k'" by (cases k) auto
  have "length (trace w1) = Suc (length (trace w))" by (simp add: w1 await_snd)
  moreover have "down env w1 k'" using Nil.prems(1) k w1 by (simp add: down_later)
  ultimately show ?case using aw k by simp
next
  case (Cons m ms)
  obtain w1 where w1: "w1 = snd (await env step w)" by simp
  have aw: "await env step w = (Done, w1)"
    using Cons.prems(3) w1 by (intro await_Done) auto
  from Cons.prems(2) obtain k' where k: "k = Suc k'" by (cases k) auto
  have len: "length (trace w1) = Suc (length (trace w))" by (simp add: w1 await_snd)
  show ?case
  proof (cases "cleaning w1")
    case False
    with aw show ?thesis by simp
  next
    case True
    have ih: "\<exists>w'. history_loop env to_delete step ms mm' ids' w1 = (Inr (Return ([], [])), w') \<or>
        (\<exists>found. history_loop env to_delete step ms mm' ids' w1 = (Inr (Continue found), w') \<and>
                 length (trace w') = length (trace w1) + length ms + 1 \<and>
                 down env w' (k' - (length ms + 1)))" for mm' ids'
    proof (rule Cons.IH)
      show "down env w1 k'" using Cons.prems(1) k w1 by (simp add: down_later)
      show "length ms < k'" using Cons.prems(2) k by simp
      show "\<forall>i\<le>k'. outcome (replies env (length (trace w1) + i)) = Done"
      proof (intro allI impI)
        fix i assume "i \<le> k'"
        then have "Suc i \<le> k" using k by simp
        with Cons.prems(3) have "outcome (replies env (length (trace w) + Suc i)) = Done" by blast
        then show "outcome (replies env (length (trace w1) + i)) = Done" using len by simp
      qed
    qed
    have sub: "k' - (length ms + 1) = k - (length (m # ms) + 1)" using k by simp
    show ?thesis
    proof (cases "to_delete m")
      case True
      from ih [of "mappings_append mm m" "ids @ [msg_id m]"] aw \<open>cleaning w1\<close> True len sub
      show ?thesis by auto
    next
      case False
      from ih [of mm ids] aw \<open>cleaning w1\<close> False len sub
      show ?thesis by auto
    qed
  qed
qed

lemma channels_loop_stopped:
  "down env w k \<Longrightarrow>
   k < length (fetches env traverse before_time after_time cs) \<Longrightarrow>
   fetches env traverse before_time after_time cs ! k \<noteq> None \<Longrightarrow>
   (\<forall>i\<le>k. outcome (replies env (length (trace w) + i)) = Done) \<Longrightarrow>
   \<exists>w'. channels_loop env traverse to_delete before_time after_time cs mm ids w = (Inr ([], []), w')"
proof (induction cs arbitrary: k mm ids w)
  case Nil
  then show ?case by simp
next
  case (Cons c cs)
  let ?h = "history env c traverse before_time after_time"
  let ?step = "HistoryNext c traverse before_time after_time"
  let ?rest = "fetches env traverse before_time after_time cs"
  have f: "fetches env traverse before_time after_time (c # cs) = map Some ?h @ [None] @ ?rest"
    by simp
  consider (inside) "k < length ?h" | (last) "k = length ?h" | (later) "length ?h < k"
    by linarith
  then show ?case
  proof cases
    case inside
    from history_loop_stopped [OF Cons.prems(1) inside Cons.prems(4), of to_delete ?step mm ids]
    obtain w1 where "history_loop env to_delete ?step ?h mm ids w = (Inr (Return ([], [])), w1)"
      by blast
    then show ?thesis by simp
  next
    case last
    then have "(map Some ?h @ [None] @ ?rest) ! k = None"
      by (simp add: nth_append)
    with Cons.prems(3) f show ?thesis by simp
  next
    case later
    from history_loop_passes [OF Cons.prems(1) later Cons.prems(4), of to_delete ?step mm ids]
    obtain w1 where alt: "history_loop env to_delete ?step ?h mm ids w = (Inr (Return ([], [])), w1) \<or>
        (\<exists>found. history_loop env to_delete ?step ?h mm ids w = (Inr (Continue found), w1) \<and>
                 length (trace w1) = length (trace w) + length ?h + 1 \<and>
                 down env w1 (k - (length ?h + 1)))"
      by blast
    then show ?thesis
    proof
      assume "history_loop env to_delete ?step ?h mm ids w = (Inr (Return ([], [])), w1)"
      then show ?thesis by simp
    next
      assume "\<exists>found. history_loop env to_delete ?step ?h mm ids w = (Inr (Continue found), w1) \<and>
                 length (trace w1) = length (trace w) + length ?h + 1 \<and>
                 down env w1 (k - (length ?h + 1))"
      then obtain mm1 ids1 where
        h: "history_loop env to_delete ?step ?h mm ids w = (Inr (Continue (mm1, ids1)), w1)"
        and len: "length (trace w1) = length (trace w) + length ?h + 1"
        and dn: "down env w1 (k - (length ?h + 1))"
        by auto
      define k' where "k' = k - (length ?h + 1)"
      have k: "k = length ?h + 1 + k'" using later by (simp add: k'_def)
      have nth: "(map Some ?h @ [None] @ ?rest) ! k = ?rest ! k'"
        using k by (simp add: nth_append)
      have "\<exists>w'. channels_loop env traverse to_delete before_time after_time cs mm1 ids1 w1 =
                   (Inr ([], []), w')"
      proof (rule Cons.IH)
        show "down env w1 k'" using dn by (simp add: k'_def)
        show "k' < length ?rest" using Cons.prems(2) f k by simp
        show "?rest ! k' \<noteq> None" using Cons.prems(3) f nth by simp
        show "\<forall>i\<le>k'. outcome (replies env (length (trace w1) + i)) = Done"
        proof (intro allI impI)
          fix i assume "i \<le> k'"
          then have "length ?h + 1 + i \<le> k" using k by simp
          with Cons.prems(4) have "outcome (replies env (length (trace w) + (length ?h + 1 + i))) = Done"
            by blast
          then show "outcome (replies env (length (trace w1) + i)) = Done"
            using len by (simp add: add.assoc)
        qed
      qed
      with h show ?thesis by simp
    qed
  qed
qed

text \<open>
  C5. The two lookups treat a cleared flag differently. The scan of the cache, at a
  message it meets with the flag down, returns the matches and identifiers gathered
  so far, whatever they are. The scan of a history, at a message it is handed with
  the flag down, returns two empty containers. For all of
  \<^verbatim>\<open>_get_messages_from_channels\<close>: let a reply clear the flag during fetch
  \<open>j\<close> of the call, and let a fetch \<open>k\<close>, not before \<open>j\<close>, hand over a message,
  the fetches up to \<open>k\<close> succeeding; then the call returns an empty mapping and an
  empty list. \<open>fetches\<close> is what the successive fetches hand over, \<open>None\<close> where a
  history is exhausted. A flag cleared when no message is handed over any more is
  not looked at by the function (\<open>last_fetch_unseen\<close> below); the caller looks at it
  next.
\<close>

theorem enumeration_cancelled:
  "(\<not> cleaning w \<longrightarrow>
      cache_loop to_delete remaining message_mappings message_ids w =
        (message_mappings, message_ids)) \<and>
   (await env step w = (Done, w1) \<and> \<not> cleaning w1 \<longrightarrow>
      history_loop env to_delete step (message # remaining) message_mappings message_ids w =
        (Inr (Return ([], [])), w1)) \<and>
   (j \<le> k \<and> stop (replies env (length (trace w) + j)) \<and>
    k < length (fetches env traverse before_time after_time channels) \<and>
    fetches env traverse before_time after_time channels ! k \<noteq> None \<and>
    (\<forall>i\<le>k. outcome (replies env (length (trace w) + i)) = Done) \<longrightarrow>
      (\<exists>w'. get_messages_from_channels env traverse channels to_delete before_time after_time w =
               (Inr ([], []), w')))"
proof (intro conjI impI)
  assume "\<not> cleaning w"
  then show "cache_loop to_delete remaining message_mappings message_ids w =
               (message_mappings, message_ids)"
    by (rule cache_loop_down)
next
  assume "await env step w = (Done, w1) \<and> \<not> cleaning w1"
  then show "history_loop env to_delete step (message # remaining) message_mappings message_ids w =
               (Inr (Return ([], [])), w1)"
    by simp
next
  assume a: "j \<le> k \<and> stop (replies env (length (trace w) + j)) \<and>
    k < length (fetches env traverse before_time after_time channels) \<and>
    fetches env traverse before_time after_time channels ! k \<noteq> None \<and>
    (\<forall>i\<le>k. outcome (replies env (length (trace w) + i)) = Done)"
  then have "down env w k" unfolding down_def by blast
  with a have "\<exists>w'. channels_loop env traverse to_delete before_time after_time channels
                 [] [] w = (Inr ([], []), w')"
    by (intro channels_loop_stopped [where k = k]) simp_all
  then show "\<exists>w'. get_messages_from_channels env traverse channels to_delete before_time after_time w =
               (Inr ([], []), w')"
    by (simp add: get_messages_from_channels_def)
qed

subsection \<open>The content pattern\<close>

lemma Nil_in_conc: "[] \<in> conc A B \<longleftrightarrow> [] \<in> A \<and> [] \<in> B"
  by (auto simp: conc_def)

lemma Cons_in_conc:
  "c # s \<in> conc A B \<longleftrightarrow>
     ([] \<in> A \<and> c # s \<in> B) \<or> (\<exists>u v. s = u @ v \<and> c # u \<in> A \<and> v \<in> B)"
  by (auto simp: conc_def Cons_eq_append_conv)

lemma in_concI: "u \<in> A \<Longrightarrow> v \<in> B \<Longrightarrow> u @ v \<in> conc A B"
  by (auto simp: conc_def)

lemma repetitions_Cons_split:
  "x \<in> repetitions A \<Longrightarrow> x = c # s \<Longrightarrow>
     \<exists>u v. s = u @ v \<and> c # u \<in> A \<and> v \<in> repetitions A"
proof (induction rule: repetitions.induct)
  case none
  then show ?case by simp
next
  case (more u v)
  show ?case
  proof (cases u)
    case Nil
    with more show ?thesis by simp
  next
    case (Cons d u')
    with more.prems have "d = c" "s = u' @ v" by simp_all
    with more.hyps Cons show ?thesis by blast
  qed
qed

lemma Cons_in_repetitions:
  "c # s \<in> repetitions A \<longleftrightarrow> (\<exists>u v. s = u @ v \<and> c # u \<in> A \<and> v \<in> repetitions A)"
proof
  assume "c # s \<in> repetitions A"
  then show "\<exists>u v. s = u @ v \<and> c # u \<in> A \<and> v \<in> repetitions A"
    by (rule repetitions_Cons_split) simp
next
  assume "\<exists>u v. s = u @ v \<and> c # u \<in> A \<and> v \<in> repetitions A"
  then obtain u v where "s = u @ v" "c # u \<in> A" "v \<in> repetitions A" by blast
  then show "c # s \<in> repetitions A"
    using repetitions.more [of "c # u" A v] by simp
qed

lemma nullable_iff: "nullable r \<longleftrightarrow> [] \<in> lang r"
  by (induction r) (simp_all add: Nil_in_conc repetitions.none)

lemma lang_deriv: "s \<in> lang (deriv c r) \<longleftrightarrow> c # s \<in> lang r"
proof (induction r arbitrary: s)
  case (RChar d)
  then show ?case by (simp add: char_matches_def)
next
  case (RRange a b)
  then show ?case by (simp add: char_matches_def)
next
  case (RSeq r1 r2)
  have "s \<in> conc (lang (deriv c r1)) (lang r2) \<longleftrightarrow>
          (\<exists>u v. s = u @ v \<and> c # u \<in> lang r1 \<and> v \<in> lang r2)"
    by (auto simp: conc_def RSeq.IH)
  with RSeq show ?case by (auto simp: Cons_in_conc nullable_iff)
next
  case (RStar r)
  have "s \<in> conc (lang (deriv c r)) (repetitions (lang r)) \<longleftrightarrow>
          (\<exists>u v. s = u @ v \<and> c # u \<in> lang r \<and> v \<in> repetitions (lang r))"
    by (auto simp: conc_def RStar.IH)
  then show ?case by (simp add: Cons_in_repetitions)
next
  case (RPlus r)
  have "s \<in> conc (lang (deriv c r)) (repetitions (lang r)) \<longleftrightarrow>
          (\<exists>u v. s = u @ v \<and> c # u \<in> lang r \<and> v \<in> repetitions (lang r))"
    by (auto simp: conc_def RPlus.IH)
  then show ?case by (auto simp: Cons_in_conc Cons_in_repetitions)
qed simp_all

lemma match_prefix_iff: "match_prefix r s \<longleftrightarrow> (\<exists>u v. s = u @ v \<and> u \<in> lang r)"
proof (induction s arbitrary: r)
  case Nil
  then show ?case by (simp add: nullable_iff)
next
  case (Cons c cs)
  have "(\<exists>u v. c # cs = u @ v \<and> u \<in> lang r) \<longleftrightarrow>
          [] \<in> lang r \<or> (\<exists>u v. cs = u @ v \<and> c # u \<in> lang r)"
    by (auto simp: Cons_eq_append_conv)
  then show ?case by (simp add: Cons.IH nullable_iff lang_deriv)
qed

lemma re_search_iff: "re_search r s \<longleftrightarrow> (\<exists>u v w. s = u @ v @ w \<and> v \<in> lang r)"
proof (induction s)
  case Nil
  then show ?case by (simp add: nullable_iff)
next
  case (Cons c cs)
  have "(\<exists>u v w. c # cs = u @ v @ w \<and> v \<in> lang r) \<longleftrightarrow>
          (\<exists>v w. c # cs = v @ w \<and> v \<in> lang r) \<or> (\<exists>u v w. cs = u @ v @ w \<and> v \<in> lang r)"
    by (auto simp: Cons_eq_append_conv) blast+
  then show ?case
    using Cons.IH match_prefix_iff [of r "c # cs"] by simp
qed

lemma foldl_append_field:
  "foldl append_field acc fs = acc @ concat (map (\<lambda>f. [field_name f, field_value f]) fs)"
  by (induction fs arbitrary: acc) (simp_all add: append_field_def)

lemma foldl_append_embed:
  "foldl append_embed acc es = acc @ concat (map embed_texts es)"
  by (induction es arbitrary: acc)
    (simp_all add: append_embed_def embed_texts_def foldl_append_field)

lemma predicate_regex_text: "predicate_regex pattern m = re_search pattern (searchable_text m)"
  by (simp add: predicate_regex_def searchable_text_def foldl_append_embed)

lemma digit_in_range: "in_range CHR ''0'' CHR ''9'' CHR ''4''" "in_range CHR ''0'' CHR ''9'' CHR ''2''"
  by (simp_all add: in_range_def)

lemma forty_two: "''42'' \<in> lang digits"
proof -
  have "''4'' \<in> lang (RRange CHR ''0'' CHR ''9'')" "''2'' \<in> lang (RRange CHR ''0'' CHR ''9'')"
    using digit_in_range by simp_all
  moreover from this(2) have "''2'' @ [] \<in> repetitions (lang (RRange CHR ''0'' CHR ''9''))"
    by (intro repetitions.more repetitions.none)
  ultimately have "''4'' @ ''2'' @ [] \<in> lang digits"
    unfolding digits_def lang.simps by (intro in_concI)
  then show ?thesis by simp
qed

text \<open>
  The words of a pattern do not depend on the case of their letters: a string that
  differs from a word only in case is a word.
\<close>

lemma own_case: "c = lower c \<or> c = upper c"
  by (auto simp: lower_def upper_def)

lemma upper_lower: "upper (lower c) = upper c"
  by (auto simp: lower_def upper_def)

lemma same_letter:
  assumes "lower c' = lower c"
  shows "(P c' \<or> P (lower c') \<or> P (upper c')) \<longleftrightarrow> (P c \<or> P (lower c) \<or> P (upper c))"
proof -
  from assms have u: "upper c' = upper c"
    using upper_lower [of c] upper_lower [of c'] by simp
  show ?thesis
    using own_case [of c] own_case [of c'] assms u by metis
qed

lemma repetitions_caseless:
  assumes "v \<in> repetitions A"
    and "\<And>u u'. u \<in> A \<Longrightarrow> map lower u' = map lower u \<Longrightarrow> u' \<in> A"
    and "map lower v' = map lower v"
  shows "v' \<in> repetitions A"
  using assms(1,3)
proof (induction arbitrary: v' rule: repetitions.induct)
  case none
  then show ?case by (simp add: repetitions.none)
next
  case (more u v)
  from more.prems obtain a b where v': "v' = a @ b"
    and a: "map lower a = map lower u" and b: "map lower b = map lower v"
    by (auto simp: map_eq_append_conv)
  from assms(2) [OF more.hyps(1) a] more.IH [OF b] show ?case
    unfolding v' by (rule repetitions.more)
qed

lemma conc_caseless:
  assumes "v \<in> conc A B"
    and "\<And>u u'. u \<in> A \<Longrightarrow> map lower u' = map lower u \<Longrightarrow> u' \<in> A"
    and "\<And>u u'. u \<in> B \<Longrightarrow> map lower u' = map lower u \<Longrightarrow> u' \<in> B"
    and "map lower v' = map lower v"
  shows "v' \<in> conc A B"
proof -
  from assms(1) obtain x y where v: "v = x @ y" and x: "x \<in> A" and y: "y \<in> B"
    by (auto simp: conc_def)
  from assms(4) v obtain a b where v': "v' = a @ b"
    and a: "map lower a = map lower x" and b: "map lower b = map lower y"
    by (auto simp: map_eq_append_conv)
  from assms(2) [OF x a] assms(3) [OF y b] show ?thesis
    unfolding v' by (rule in_concI)
qed

lemma lang_caseless:
  "v \<in> lang r \<Longrightarrow> map lower v' = map lower v \<Longrightarrow> v' \<in> lang r"
proof (induction r arbitrary: v v')
  case RNone
  then show ?case by simp
next
  case REps
  then show ?case by simp
next
  case (RChar d)
  then show ?case by auto
next
  case RAny
  then show ?case by auto
next
  case (RRange a b)
  from RRange.prems(1) obtain c where v: "v = [c]"
    and c: "in_range a b c \<or> in_range a b (lower c) \<or> in_range a b (upper c)"
    by auto
  from RRange.prems(2) v obtain c' where v': "v' = [c']" and l: "lower c' = lower c"
    by auto
  from same_letter [OF l, of "in_range a b"] c
  have "in_range a b c' \<or> in_range a b (lower c') \<or> in_range a b (upper c')" by simp
  with v' show ?case by simp
next
  case (RSeq r1 r2)
  from RSeq.prems show ?case
    by (auto intro: conc_caseless [where v = v] RSeq.IH)
next
  case (RAlt r1 r2)
  from RAlt.prems show ?case by (auto dest: RAlt.IH)
next
  case (RStar r)
  from RStar.prems show ?case
    by (auto intro: repetitions_caseless [where v = v] RStar.IH)
next
  case (RPlus r)
  have rep: "u' \<in> repetitions (lang r)"
    if "u \<in> repetitions (lang r)" "map lower u' = map lower u" for u u'
    using that by (auto intro: repetitions_caseless [where v = u] RPlus.IH)
  from RPlus.prems show ?case
    by (auto intro: conc_caseless [where v = v] RPlus.IH rep)
next
  case (ROpt r)
  from ROpt.prems show ?case by (auto dest: ROpt.IH)
qed

lemma re_search_caseless:
  "re_search r s \<longleftrightarrow>
     (\<exists>u v w v'. s = u @ v @ w \<and> map lower v' = map lower v \<and> v' \<in> lang r)"
  unfolding re_search_iff
proof
  assume "\<exists>u v w. s = u @ v @ w \<and> v \<in> lang r"
  then show "\<exists>u v w v'. s = u @ v @ w \<and> map lower v' = map lower v \<and> v' \<in> lang r"
    by blast
next
  assume "\<exists>u v w v'. s = u @ v @ w \<and> map lower v' = map lower v \<and> v' \<in> lang r"
  then obtain u v w v' where "s = u @ v @ w" "map lower v' = map lower v" "v' \<in> lang r"
    by blast
  with lang_caseless [of v' r v] show "\<exists>u v w. s = u @ v @ w \<and> v \<in> lang r"
    by auto
qed

text \<open>
  C9. \<^verbatim>\<open>predicate_regex\<close> holds of a message exactly when some part of its
  searchable text, anywhere in it, is a word of the pattern (\<open>lang\<close>), which is
  the same as being one up to the case of the letters; the searchable text is the
  body, then for each embed its title, description, footer text, author name and
  the name and value of each field, the empty ones left out, joined by newlines.
  A message with an empty body and one embed, empty but for a field of value
  \<^verbatim>\<open>42\<close>, matches \<^verbatim>\<open>[0-9]+\<close>.
\<close>

theorem predicate_regex_search:
  "(predicate_regex pattern m \<longleftrightarrow>
      (\<exists>u v w. searchable_text m = u @ v @ w \<and> v \<in> lang pattern)) \<and>
   (predicate_regex pattern m \<longleftrightarrow>
      (\<exists>u v w v'. searchable_text m = u @ v @ w \<and> map lower v' = map lower v \<and>
         v' \<in> lang pattern)) \<and>
   predicate_regex digits (m\<lparr>content := [], embeds := [only_field ''42'']\<rparr>)"
proof (intro conjI)
  show "predicate_regex pattern m \<longleftrightarrow>
      (\<exists>u v w. searchable_text m = u @ v @ w \<and> v \<in> lang pattern)"
    by (simp add: predicate_regex_text re_search_iff)
next
  show "predicate_regex pattern m \<longleftrightarrow>
      (\<exists>u v w v'. searchable_text m = u @ v @ w \<and> map lower v' = map lower v \<and>
         v' \<in> lang pattern)"
    by (simp only: predicate_regex_text re_search_caseless)
next
  let ?m = "m\<lparr>content := [], embeds := [only_field ''42'']\<rparr>"
  have "searchable_text ?m = [] @ ''42'' @ []"
    by (simp add: searchable_text_def embed_texts_def only_field_def)
  with forty_two have "\<exists>u v w. searchable_text ?m = u @ v @ w \<and> v \<in> lang digits"
    by blast
  then show "predicate_regex digits ?m"
    by (simp only: predicate_regex_text re_search_iff)
qed

subsection \<open>Runs on the example inputs\<close>

theorem limits_sorted_before_use_witness:
  "validate_input (message_limit calm) 10 None False None
       (Some (LimitTime 5)) (Some (LimitTime 3)) = Inr () \<and>
   \<not> cleaning idle \<and>
   clean_messages calm here 10 None False None None (Some (LimitTime 5)) (Some (LimitTime 3))
       None idle =
     session calm here 10 (Channels [TextChannel 1])
       (build_predicate False None None (Some 3) (Some 5)) (Some 3) (Some 5) None
       (idle\<lparr>cleaning := True\<rparr>)"
proof -
  have v: "validate_input (message_limit calm) 10 None False None
       (Some (LimitTime 5)) (Some (LimitTime 3)) = Inr ()"
    by (simp add: validate_input_def calm_def truthy_def)
  have i: "\<not> cleaning idle" by (simp add: idle_def)
  from limits_sorted_before_use [OF v i, of here None None]
  obtain lo hi where le: "lo \<le> hi" and set: "{lo, hi} = {limit_time (LimitTime 5), limit_time (LimitTime 3)}"
    and eq: "clean_messages calm here 10 None False None None
               (Some (LimitTime 5)) (Some (LimitTime 3)) None idle =
             session calm here 10
               (default_channels here None (Some (LimitTime 5)) (Some (LimitTime 3)))
               (build_predicate False None None (Some lo) (Some hi)) (Some lo) (Some hi)
               None (idle\<lparr>cleaning := True\<rparr>)"
    by blast
  from set have "{lo, hi} = {5, 3}" by simp
  with le have "lo = 3 \<and> hi = 5" by (auto simp: doubleton_eq_iff)
  moreover have "default_channels here None (Some (LimitTime 5)) (Some (LimitTime 3)) =
                   Channels [TextChannel 1]"
    by (simp add: default_channels_def here_def)
  ultimately show ?thesis using v i eq by simp
qed

theorem cache_only_for_wildcard_witness:
  "clean_messages calm here 10 (Some (Channels [TextChannel 3])) False None None None None
       (Some True) idle =
     (Inr (), \<lparr>cleaning = False,
        trace = [DeleteMessage command_message, HistoryNext (TextChannel 3) 10 None None,
                 Send (TextChannel 1) '':x: No matching messages could be found.'' (Some 5)],
        ticks = 0\<rparr>) \<and>
   CacheRead \<notin> set (issued idle \<lparr>cleaning = False,
        trace = [DeleteMessage command_message, HistoryNext (TextChannel 3) 10 None None,
                 Send (TextChannel 1) '':x: No matching messages could be found.'' (Some 5)],
        ticks = 0\<rparr>) \<and>
   clean_messages calm here 10 (Some AllChannels) False None None None None (Some True) idle =
     (Inr (), \<lparr>cleaning = False,
        trace = [DeleteMessage command_message, CacheRead,
                 Send (TextChannel 1) '':x: No matching messages could be found.'' (Some 5)],
        ticks = 0\<rparr>) \<and>
   list_all (\<lambda>e. \<not> is_history e) (issued idle \<lparr>cleaning = False,
        trace = [DeleteMessage command_message, CacheRead,
                 Send (TextChannel 1) '':x: No matching messages could be found.'' (Some 5)],
        ticks = 0\<rparr>)"
proof -
  let ?w1 = "\<lparr>cleaning = False,
        trace = [DeleteMessage command_message, HistoryNext (TextChannel 3) 10 None None,
                 Send (TextChannel 1) '':x: No matching messages could be found.'' (Some 5)],
        ticks = 0\<rparr>"
  let ?w2 = "\<lparr>cleaning = False,
        trace = [DeleteMessage command_message, CacheRead,
                 Send (TextChannel 1) '':x: No matching messages could be found.'' (Some 5)],
        ticks = 0\<rparr>"
  have a: "clean_messages calm here 10 (Some (Channels [TextChannel 3])) False None None None None
       (Some True) idle = (Inr (), ?w1)"
    by (simp add: clean_messages_def session_def validate_input_def truthy_def
        default_channels_def standardize_limits_def delete_invocation_def get_messages_def
        get_messages_from_channels_def await_def calm_def here_def idle_def Let_def
        delete_found_def modlog_cleaned_messages_def send_expiring_message_def
        MESSAGE_DELETE_DELAY_def)
  have b: "clean_messages calm here 10 (Some AllChannels) False None None None None
       (Some True) idle = (Inr (), ?w2)"
    by (simp add: clean_messages_def session_def validate_input_def truthy_def
        default_channels_def standardize_limits_def delete_invocation_def get_messages_def
        get_messages_from_cache_def await_def calm_def here_def idle_def Let_def
        delete_found_def modlog_cleaned_messages_def send_expiring_message_def
        MESSAGE_DELETE_DELAY_def)
  from cache_only_for_wildcard [of calm here 10 "Some (Channels [TextChannel 3])" False None None
      None None "Some True" idle "Inr ()" ?w1] a
  have "CacheRead \<notin> set (issued idle ?w1)" by simp
  moreover
  from cache_only_for_wildcard [of calm here 10 "Some AllChannels" False None None
      None None "Some True" idle "Inr ()" ?w2] b
  have "list_all (\<lambda>e. \<not> is_history e) (issued idle ?w2)" by simp
  ultimately show ?thesis using a b by simp
qed

theorem enumeration_cancelled_witness:
  "cache_loop (\<lambda>m. True) five [(TextChannel 1, [example_message 9])] [9] idle =
     ([(TextChannel 1, [example_message 9])], [9]) \<and>
   history_loop (stop_during 0) (\<lambda>m. True) (HistoryNext (TextChannel 1) 10 None None) five
       [(TextChannel 1, [example_message 9])] [9] started =
     (Inr (Return ([], [])),
      \<lparr>cleaning = False, trace = [HistoryNext (TextChannel 1) 10 None None], ticks = 0\<rparr>) \<and>
   fst (get_messages_from_channels two_in_history 10 [TextChannel 1] (\<lambda>m. True) None None started) =
     Inr ([], [])"
proof -
  let ?step = "HistoryNext (TextChannel 1) 10 None None"
  let ?w1 = "\<lparr>cleaning = False, trace = [?step], ticks = 0\<rparr>"
  have aw: "await (stop_during 0) ?step started = (Done, ?w1)"
    by (simp add: await_def stop_during_def calm_def started_def Let_def)
  have i: "\<not> cleaning idle" by (simp add: idle_def)
  have f: "fetches two_in_history 10 None None [TextChannel 1] =
             [Some (example_message (recent 2)), Some (example_message (recent 1)), None]"
    by (simp add: two_in_history_def)
  have s: "stop (replies two_in_history (length (trace started) + 1))"
    by (simp add: two_in_history_def stop_during_def started_def)
  have d: "\<forall>i\<le>1. outcome (replies two_in_history (length (trace started) + i)) = Done"
    by (simp add: two_in_history_def stop_during_def calm_def)
  from enumeration_cancelled [of idle "\<lambda>m. True" five "[(TextChannel 1, [example_message 9])]" "[9]"]
    i
  have "cache_loop (\<lambda>m. True) five [(TextChannel 1, [example_message 9])] [9] idle =
     ([(TextChannel 1, [example_message 9])], [9])"
    by blast
  moreover
  from enumeration_cancelled [of started "\<lambda>m. True" "tl five" "[(TextChannel 1, [example_message 9])]"
      "[9]" "stop_during 0" ?step ?w1 "hd five"] aw
  have "history_loop (stop_during 0) (\<lambda>m. True) ?step (hd five # tl five)
       [(TextChannel 1, [example_message 9])] [9] started = (Inr (Return ([], [])), ?w1)"
    by simp
  then have "history_loop (stop_during 0) (\<lambda>m. True) ?step five
       [(TextChannel 1, [example_message 9])] [9] started = (Inr (Return ([], [])), ?w1)"
    by (simp add: five_def)
  moreover
  have hyp: "(1::nat) \<le> 1 \<and> stop (replies two_in_history (length (trace started) + 1)) \<and>
      1 < length (fetches two_in_history 10 None None [TextChannel 1]) \<and>
      fetches two_in_history 10 None None [TextChannel 1] ! 1 \<noteq> None \<and>
      (\<forall>i\<le>1. outcome (replies two_in_history (length (trace started) + i)) = Done)"
    using s d by (simp only: f) simp
  have "\<exists>w'. get_messages_from_channels two_in_history 10 [TextChannel 1] (\<lambda>m. True) None None
               started = (Inr ([], []), w')"
    using enumeration_cancelled [where w = started and j = 1 and k = 1 and env = two_in_history
      and traverse = 10 and before_time = None and after_time = None
      and channels = "[TextChannel 1]" and to_delete = "\<lambda>m. True"] hyp
    by blast
  then have "fst (get_messages_from_channels two_in_history 10 [TextChannel 1] (\<lambda>m. True) None
               None started) = Inr ([], [])"
    by auto
  ultimately show ?thesis by simp
qed

theorem predicate_regex_search_witness:
  "predicate_regex (RSeq (RChar CHR ''a'') digits) (example_message 1\<lparr>content := ''xA7y''\<rparr>) \<and>
   (\<exists>u v w. searchable_text (example_message 1\<lparr>content := ''xA7y''\<rparr>) = u @ v @ w \<and>
      v \<in> lang (RSeq (RChar CHR ''a'') digits))"
proof -
  have "predicate_regex (RSeq (RChar CHR ''a'') digits) (example_message 1\<lparr>content := ''xA7y''\<rparr>)"
    by code_simp
  with predicate_regex_search [of "RSeq (RChar CHR ''a'') digits"
      "example_message 1\<lparr>content := ''xA7y''\<rparr>"]
  show ?thesis by blast
qed

text \<open>The flag cleared during the last fetch, the one that finds the history exhausted:
  the function returns what it gathered.\<close>

lemma last_fetch_unseen:
  "get_messages_from_channels (two_in_history\<lparr>replies := replies (stop_during 2)\<rparr>) 10
       [TextChannel 1] (\<lambda>m. True) None None started =
     (Inr ([(TextChannel 1, [example_message (recent 2), example_message (recent 1)])],
           [recent 2, recent 1]),
      \<lparr>cleaning = False,
         trace = replicate 3 (HistoryNext (TextChannel 1) 10 None None), ticks = 0\<rparr>)"
  by (simp add: get_messages_from_channels_def two_in_history_def stop_during_def calm_def
      started_def await_def Let_def example_message_def numeral_3_eq_3)

end
